theory Spec2Isabelle
  imports Complex_Main "HOL-Library.Multiset"
begin

section \<open>Data model of the statistics kernel\<close>

text \<open>
  The kernel of \<^verbatim>\<open>core.cpp\<close> works on \<^verbatim>\<open>std::vector<double>\<close> values. It is
  embedded twice. In this first part a \<^verbatim>\<open>double\<close> is a \<^typ>\<open>real\<close> and the arithmetic
  is exact; it carries the statements that do not depend on how the arithmetic rounds:
  the validation of the input, the batch driver, the range and the order of the time
  outputs, and the invariance under reordering. The part
  \<open>The kernel in double arithmetic\<close> below has NaN and takes the rounded operations as
  a parameter; it carries the statements about which pulses a window or a percentile
  selects and about the weighted moments, where rounding decides.

  A \<^verbatim>\<open>size_t\<close> index or length is a \<^typ>\<open>nat\<close>; the only
  subtraction on sizes in the source (\<^verbatim>\<open>n_times - 1\<close>) happens where the vector is not
  empty. A \<^verbatim>\<open>std::array<double, 9>\<close> is a list of nine numbers, \<open>r ! k\<close> being
  \<^verbatim>\<open>result[k]\<close>. A thrown \<^verbatim>\<open>std::invalid_argument\<close> is the left summand of the
  result, carrying the message. The parameter \<^verbatim>\<open>times\<close> of the source is written
  \<open>times_in\<close>, the name \<open>times\<close> being HOL's multiplication.
\<close>

datatype error = Invalid_argument string

definition empty_stats :: "real list" where
  "empty_stats = [0, 0, 0, 0, 0, 0, 0, 0, 0]"

subsection \<open>Library routines the kernel calls\<close>

text \<open>\<^verbatim>\<open>std::to_string\<close> on a \<^verbatim>\<open>size_t\<close>: the decimal digits, most significant first.\<close>

definition digit_char :: "nat \<Rightarrow> char" where
  "digit_char d = char_of (48 + d)"

fun to_string :: "nat \<Rightarrow> string" where
  "to_string n =
     (if n < 10 then [digit_char n]
      else to_string (n div 10) @ [digit_char (n mod 10)])"

declare to_string.simps [simp del]

text \<open>
  \<^verbatim>\<open>std::is_sorted\<close>: no element is smaller than its predecessor
  (the comparison is \<^verbatim>\<open>operator<\<close>).
\<close>

fun is_sorted :: "real list \<Rightarrow> bool" where
  "is_sorted [] = True"
| "is_sorted [x] = True"
| "is_sorted (x # y # ys) = (if y < x then False else is_sorted (y # ys))"

text \<open>
  \<^verbatim>\<open>std::sort\<close> is a parameter of the model. The C++ standard fixes only its contract:
  the result is a rearrangement of the range in which no element compares less than an
  earlier one; where equal keys land is left to the implementation. The kernel calls it
  on a list of indices with the comparison \<^verbatim>\<open>times[i1] < times[i2]\<close>, so the contract
  is stated for comparisons of that shape.
\<close>

type_synonym sorter = "(nat \<Rightarrow> nat \<Rightarrow> bool) \<Rightarrow> nat list \<Rightarrow> nat list"

definition sort_contract :: "sorter \<Rightarrow> bool" where
  "sort_contract std_sort \<longleftrightarrow>
     (\<forall>(key :: nat \<Rightarrow> real) xs.
        mset (std_sort (\<lambda>i1 i2. key i1 < key i2) xs) = mset xs \<and>
        sorted (map key (std_sort (\<lambda>i1 i2. key i1 < key i2) xs)))"

text \<open>
  One sorter that meets the contract, used wherever the model is run on concrete
  input: straight insertion, an element moving left past the strictly greater ones.
\<close>

fun insert_by :: "('a \<Rightarrow> 'a \<Rightarrow> bool) \<Rightarrow> 'a \<Rightarrow> 'a list \<Rightarrow> 'a list" where
  "insert_by lt x [] = [x]"
| "insert_by lt x (y # ys) =
     (if lt x y then x # y # ys else y # insert_by lt x ys)"

definition insertion_sort :: "('a \<Rightarrow> 'a \<Rightarrow> bool) \<Rightarrow> 'a list \<Rightarrow> 'a list" where
  "insertion_sort lt xs = foldl (\<lambda>acc x. insert_by lt x acc) [] xs"

text \<open>
  \<^verbatim>\<open>std::upper_bound\<close> with \<^verbatim>\<open>operator<\<close>, as the standard library implements it:
  a halving search that keeps a start position and a length and moves right whenever
  the probed element is not greater than the value. The kernel also runs it on the
  cumulative charges, which are not ordered when a charge is negative, so the search
  itself is modelled and not only its result on ordered input. The probe
  \<open>xs ! (first + len div 2)\<close> is inside the list as long as \<open>first + len \<le> length xs\<close>,
  which holds from the initial call on.
\<close>

function upper_bound_loop :: "real list \<Rightarrow> real \<Rightarrow> nat \<Rightarrow> nat \<Rightarrow> nat" where
  "upper_bound_loop xs val first len =
     (if 0 < len then
        (if val < xs ! (first + len div 2)
         then upper_bound_loop xs val first (len div 2)
         else upper_bound_loop xs val (first + len div 2 + 1) (len - len div 2 - 1))
      else first)"
  by pat_completeness auto
termination
  by (relation "measure (\<lambda>(xs, val, first, len). len)") auto

declare upper_bound_loop.simps [simp del]

definition upper_bound :: "real list \<Rightarrow> real \<Rightarrow> nat" where
  "upper_bound xs val = upper_bound_loop xs val 0 (length xs)"

text \<open>\<^verbatim>\<open>std::accumulate\<close>: a left-to-right running sum from the initial value.\<close>

definition accumulate :: "real list \<Rightarrow> real \<Rightarrow> real" where
  "accumulate xs init = foldl (+) init xs"

text \<open>
  \<^verbatim>\<open>std::partial_sum\<close>: the first output is the first input, every later output adds the
  next input to the previous output.
\<close>

fun partial_sum_from :: "real \<Rightarrow> real list \<Rightarrow> real list" where
  "partial_sum_from acc [] = []"
| "partial_sum_from acc (x # xs) = (acc + x) # partial_sum_from (acc + x) xs"

fun partial_sum :: "real list \<Rightarrow> real list" where
  "partial_sum [] = []"
| "partial_sum (x # xs) = x # partial_sum_from x xs"

section \<open>The single-sensor kernel\<close>

text \<open>
  Lines 30 to 55 of \<^verbatim>\<open>core.cpp\<close>: the identity index list, the already-sorted test, and
  otherwise the index sort followed by the gathering loop.
\<close>

definition sorted_pulses :: "sorter \<Rightarrow> real list \<Rightarrow> real list \<Rightarrow> real list \<times> real list" where
  "sorted_pulses std_sort times_in charges =
     (let indices = [0..<length times_in] in
      if is_sorted times_in then (times_in, charges)
      else
        (let indices' = std_sort (\<lambda>i1 i2. times_in ! i1 < times_in ! i2) indices
         in (map (\<lambda>idx. times_in ! idx) indices', map (\<lambda>idx. charges ! idx) indices')))"

text \<open>
  Lines 62 to 83: the charge inside a time window. The source writes the search and
  the summing loop once for the 100 ns cutoff and once for the 500 ns cutoff.
\<close>

definition window_charge :: "real list \<Rightarrow> real list \<Rightarrow> real \<Rightarrow> real" where
  "window_charge times_sorted charges_sorted cutoff =
     (let idx = upper_bound times_sorted cutoff
      in foldl (\<lambda>acc i. acc + charges_sorted ! i) 0 [0..<idx])"

text \<open>
  Lines 93 to 102: the search over the cumulative charges and the clamped read of the
  sorted times, written in the source once per threshold.
\<close>

definition percentile_index :: "real list \<Rightarrow> real list \<Rightarrow> real \<Rightarrow> nat" where
  "percentile_index times_sorted cumulative_charge threshold =
     (let idx = upper_bound cumulative_charge threshold;
          n_times = length times_sorted
      in min idx (n_times - 1))"

definition percentile_time :: "real list \<Rightarrow> real list \<Rightarrow> real \<Rightarrow> real" where
  "percentile_time times_sorted cumulative_charge threshold =
     times_sorted ! percentile_index times_sorted cumulative_charge threshold"

text \<open>Lines 110 to 123: the two loops of the weighted moments.\<close>

definition weighted_sum :: "real list \<Rightarrow> real list \<Rightarrow> real" where
  "weighted_sum times_sorted charges_sorted =
     foldl (\<lambda>acc i. acc + times_sorted ! i * charges_sorted ! i) 0 [0..<length times_sorted]"

definition weighted_variance_sum :: "real list \<Rightarrow> real list \<Rightarrow> real \<Rightarrow> real" where
  "weighted_variance_sum times_sorted charges_sorted mean =
     foldl (\<lambda>acc i. acc + charges_sorted ! i * (times_sorted ! i - mean) * (times_sorted ! i - mean))
       0 [0..<length times_sorted]"

text \<open>Lines 57 to 136: the nine statistics of a sorted, non-empty pulse sequence.\<close>

definition stats_of_sorted :: "real list \<Rightarrow> real list \<Rightarrow> real list" where
  "stats_of_sorted times_sorted charges_sorted =
     (let total_charge = accumulate charges_sorted 0;
          first_pulse_time = times_sorted ! 0;
          last_pulse_time = last times_sorted;
          charge_100ns = window_charge times_sorted charges_sorted (first_pulse_time + 100);
          charge_500ns = window_charge times_sorted charges_sorted (first_pulse_time + 500);
          cumulative_charge = partial_sum charges_sorted;
          charge_20_percent_time =
            percentile_time times_sorted cumulative_charge (0.2 * total_charge);
          charge_50_percent_time =
            percentile_time times_sorted cumulative_charge (0.5 * total_charge);
          charge_weighted_mean_time =
            (if 0 < total_charge
             then weighted_sum times_sorted charges_sorted / total_charge else 0);
          charge_weighted_std_time =
            (if 0 < total_charge
             then sqrt (weighted_variance_sum times_sorted charges_sorted
                          charge_weighted_mean_time / total_charge)
             else 0)
      in [total_charge, charge_100ns, charge_500ns, first_pulse_time, last_pulse_time,
          charge_20_percent_time, charge_50_percent_time,
          charge_weighted_mean_time, charge_weighted_std_time])"

definition length_error :: "nat \<Rightarrow> nat \<Rightarrow> error" where
  "length_error n m =
     Invalid_argument (''times and charges must have the same length, got '' @
                       to_string n @ '' and '' @ to_string m)"

definition compute_summary_stats :: "sorter \<Rightarrow> real list \<Rightarrow> real list \<Rightarrow> error + real list" where
  "compute_summary_stats std_sort times_in charges =
     (if times_in = [] then Inr empty_stats
      else if length times_in \<noteq> length charges
      then Inl (length_error (length times_in) (length charges))
      else (case sorted_pulses std_sort times_in charges of
              (times_sorted, charges_sorted) \<Rightarrow> Inr (stats_of_sorted times_sorted charges_sorted)))"

section \<open>The batch driver\<close>

definition batch_error :: error where
  "batch_error = Invalid_argument ''times_list and charges_list must have the same length''"

text \<open>
  The loop of lines 150 to 152: position \<open>i\<close> and the results pushed so far. An
  exception of the kernel leaves the loop and the function, and the results are lost.
\<close>

function batch_loop ::
  "sorter \<Rightarrow> real list list \<Rightarrow> real list list \<Rightarrow> nat \<Rightarrow> real list list \<Rightarrow> error + real list list"
where
  "batch_loop std_sort times_list charges_list i results =
     (if i < length times_list then
        (case compute_summary_stats std_sort (times_list ! i) (charges_list ! i) of
           Inl e \<Rightarrow> Inl e
         | Inr r \<Rightarrow> batch_loop std_sort times_list charges_list (Suc i) (results @ [r]))
      else Inr results)"
  by pat_completeness auto
termination
  by (relation "measure (\<lambda>(std_sort, times_list, charges_list, i, results). length times_list - i)")
     auto

declare batch_loop.simps [simp del]

definition compute_summary_stats_batch ::
  "sorter \<Rightarrow> real list list \<Rightarrow> real list list \<Rightarrow> error + real list list" where
  "compute_summary_stats_batch std_sort times_list charges_list =
     (if length times_list \<noteq> length charges_list then Inl batch_error
      else batch_loop std_sort times_list charges_list 0 [])"

section \<open>The kernel in double arithmetic\<close>

text \<open>
  The second embedding keeps what the first one leaves out: rounding and NaN. A double
  is NaN or a number. The numbers a double can hold, the two infinities among them and
  the two zeros taken as one, are linearly ordered; they are the elements of the type
  parameter \<open>'a\<close>, of which only the order and the number 0 are used.
  \<^verbatim>\<open>operator<\<close> is \<open>less_d\<close> and is false as soon as one side is NaN; \<open>le_d\<close> is
  \<^verbatim>\<open><=\<close>, false on NaN as well.
\<close>

datatype 'a double = NaN | Num 'a

fun less_d :: "'a::ord double \<Rightarrow> 'a double \<Rightarrow> bool" where
  "less_d (Num a) (Num b) = (a < b)"
| "less_d _ _ = False"

fun le_d :: "'a::ord double \<Rightarrow> 'a double \<Rightarrow> bool" where
  "le_d (Num a) (Num b) = (a \<le> b)"
| "le_d _ _ = False"

text \<open>
  The arithmetic of the machine is a parameter \<open>F\<close>: the five operations the kernel
  uses, each standing for the operation on doubles with its rounding (one call for each
  operation the source writes, no fused multiply-add), and the doubles denoted by the
  literals \<^verbatim>\<open>100.0\<close>, \<^verbatim>\<open>500.0\<close>, \<^verbatim>\<open>0.2\<close> and \<^verbatim>\<open>0.5\<close>. The literal \<^verbatim>\<open>0.0\<close>
  is \<open>Num 0\<close>. Nothing is assumed about the operations unless a statement says so, so
  what is proved for every \<open>F\<close> holds for the arithmetic of IEEE doubles.
\<close>

record 'a fpu =
  fadd :: "'a double \<Rightarrow> 'a double \<Rightarrow> 'a double"
  fsub :: "'a double \<Rightarrow> 'a double \<Rightarrow> 'a double"
  fmul :: "'a double \<Rightarrow> 'a double \<Rightarrow> 'a double"
  fdiv :: "'a double \<Rightarrow> 'a double \<Rightarrow> 'a double"
  fsqrt :: "'a double \<Rightarrow> 'a double"
  c100 :: "'a double"
  c500 :: "'a double"
  c02 :: "'a double"
  c05 :: "'a double"

text \<open>
  The property of addition that the percentile search relies on: adding a number that
  is not negative to a number that is not negative gives a number, and not a smaller
  one. Rounded addition has it, since rounding is monotone and the first summand is
  itself a double; an overflow gives the positive infinity.
\<close>

definition add_monotone :: "'a::{linorder,zero} fpu \<Rightarrow> bool" where
  "add_monotone F \<longleftrightarrow>
     (\<forall>a q. 0 \<le> a \<and> 0 \<le> q \<longrightarrow> (\<exists>s. fadd F (Num a) (Num q) = Num s \<and> a \<le> s))"

subsection \<open>Library routines on doubles\<close>

fun is_sorted_fp :: "'a::ord double list \<Rightarrow> bool" where
  "is_sorted_fp [] = True"
| "is_sorted_fp [x] = True"
| "is_sorted_fp (x # y # ys) = (if less_d y x then False else is_sorted_fp (y # ys))"

text \<open>
  The contract of \<^verbatim>\<open>std::sort\<close> as the C++ standard states it: when the comparison is
  a strict weak ordering of the elements of the range, the result is a rearrangement of
  the range in which no element compares less than an earlier one. With a NaN among the
  times the comparison of the kernel is no strict weak ordering, so the statements about
  the sorted sequence ask for times without NaN.
\<close>

definition strict_weak_order_on :: "nat set \<Rightarrow> (nat \<Rightarrow> nat \<Rightarrow> bool) \<Rightarrow> bool" where
  "strict_weak_order_on S cmp \<longleftrightarrow>
     (\<forall>a\<in>S. \<not> cmp a a) \<and>
     (\<forall>a\<in>S. \<forall>b\<in>S. \<forall>c\<in>S. cmp a b \<and> cmp b c \<longrightarrow> cmp a c) \<and>
     (\<forall>a\<in>S. \<forall>b\<in>S. \<forall>c\<in>S. cmp a b \<longrightarrow> cmp a c \<or> cmp c b)"

definition std_sort_contract :: "sorter \<Rightarrow> bool" where
  "std_sort_contract std_sort \<longleftrightarrow>
     (\<forall>cmp xs. strict_weak_order_on (set xs) cmp \<longrightarrow>
        mset (std_sort cmp xs) = mset xs \<and>
        sorted_wrt (\<lambda>a b. \<not> cmp b a) (std_sort cmp xs))"

function upper_bound_loop_fp ::
  "'a::ord double list \<Rightarrow> 'a double \<Rightarrow> nat \<Rightarrow> nat \<Rightarrow> nat" where
  "upper_bound_loop_fp xs val first len =
     (if 0 < len then
        (if less_d val (xs ! (first + len div 2))
         then upper_bound_loop_fp xs val first (len div 2)
         else upper_bound_loop_fp xs val (first + len div 2 + 1) (len - len div 2 - 1))
      else first)"
  by pat_completeness auto
termination
  by (relation "measure (\<lambda>(xs, val, first, len). len)") auto

declare upper_bound_loop_fp.simps [simp del]

definition upper_bound_fp :: "'a::ord double list \<Rightarrow> 'a double \<Rightarrow> nat" where
  "upper_bound_fp xs val = upper_bound_loop_fp xs val 0 (length xs)"

definition accumulate_fp :: "'a fpu \<Rightarrow> 'a double list \<Rightarrow> 'a double \<Rightarrow> 'a double" where
  "accumulate_fp F xs init = foldl (fadd F) init xs"

fun partial_sum_from_fp :: "'a fpu \<Rightarrow> 'a double \<Rightarrow> 'a double list \<Rightarrow> 'a double list" where
  "partial_sum_from_fp F acc [] = []"
| "partial_sum_from_fp F acc (x # xs) = fadd F acc x # partial_sum_from_fp F (fadd F acc x) xs"

fun partial_sum_fp :: "'a fpu \<Rightarrow> 'a double list \<Rightarrow> 'a double list" where
  "partial_sum_fp F [] = []"
| "partial_sum_fp F (x # xs) = x # partial_sum_from_fp F x xs"

subsection \<open>The single-sensor kernel on doubles\<close>

text \<open>
  The same lines of \<^verbatim>\<open>core.cpp\<close> as before, every comparison being \<open>less_d\<close> and
  every arithmetic operation a call of \<open>F\<close>: the cutoffs of lines 63 and 64 and the
  thresholds of lines 89 and 90 are the doubles the operations return, the sums of
  lines 58, 78, 82, 87, 112 and 120 add from left to right, and the guard of line 108
  looks at the computed total.
\<close>

definition sorted_pulses_fp ::
  "sorter \<Rightarrow> 'a::ord double list \<Rightarrow> 'a double list \<Rightarrow> 'a double list \<times> 'a double list" where
  "sorted_pulses_fp std_sort times_in charges =
     (let indices = [0..<length times_in] in
      if is_sorted_fp times_in then (times_in, charges)
      else
        (let indices' = std_sort (\<lambda>i1 i2. less_d (times_in ! i1) (times_in ! i2)) indices
         in (map (\<lambda>idx. times_in ! idx) indices', map (\<lambda>idx. charges ! idx) indices')))"

definition window_charge_fp ::
  "'a::{ord,zero} fpu \<Rightarrow> 'a double list \<Rightarrow> 'a double list \<Rightarrow> 'a double \<Rightarrow> 'a double" where
  "window_charge_fp F times_sorted charges_sorted cutoff =
     (let idx = upper_bound_fp times_sorted cutoff
      in foldl (\<lambda>acc i. fadd F acc (charges_sorted ! i)) (Num 0) [0..<idx])"

definition percentile_index_fp :: "'a::ord double list \<Rightarrow> 'a double list \<Rightarrow> 'a double \<Rightarrow> nat" where
  "percentile_index_fp times_sorted cumulative_charge threshold =
     (let idx = upper_bound_fp cumulative_charge threshold;
          n_times = length times_sorted
      in min idx (n_times - 1))"

definition percentile_time_fp ::
  "'a::ord double list \<Rightarrow> 'a double list \<Rightarrow> 'a double \<Rightarrow> 'a double" where
  "percentile_time_fp times_sorted cumulative_charge threshold =
     times_sorted ! percentile_index_fp times_sorted cumulative_charge threshold"

definition weighted_sum_fp ::
  "'a::zero fpu \<Rightarrow> 'a double list \<Rightarrow> 'a double list \<Rightarrow> 'a double" where
  "weighted_sum_fp F times_sorted charges_sorted =
     foldl (\<lambda>acc i. fadd F acc (fmul F (times_sorted ! i) (charges_sorted ! i)))
       (Num 0) [0..<length times_sorted]"

definition weighted_variance_sum_fp ::
  "'a::zero fpu \<Rightarrow> 'a double list \<Rightarrow> 'a double list \<Rightarrow> 'a double \<Rightarrow> 'a double" where
  "weighted_variance_sum_fp F times_sorted charges_sorted mean =
     foldl (\<lambda>acc i. fadd F acc
              (fmul F (fmul F (charges_sorted ! i) (fsub F (times_sorted ! i) mean))
                      (fsub F (times_sorted ! i) mean)))
       (Num 0) [0..<length times_sorted]"

definition stats_of_sorted_fp ::
  "'a::{ord,zero} fpu \<Rightarrow> 'a double list \<Rightarrow> 'a double list \<Rightarrow> 'a double list" where
  "stats_of_sorted_fp F times_sorted charges_sorted =
     (let total_charge = accumulate_fp F charges_sorted (Num 0);
          first_pulse_time = times_sorted ! 0;
          last_pulse_time = last times_sorted;
          time_100ns_cutoff = fadd F first_pulse_time (c100 F);
          time_500ns_cutoff = fadd F first_pulse_time (c500 F);
          charge_100ns = window_charge_fp F times_sorted charges_sorted time_100ns_cutoff;
          charge_500ns = window_charge_fp F times_sorted charges_sorted time_500ns_cutoff;
          cumulative_charge = partial_sum_fp F charges_sorted;
          charge_20_percent = fmul F (c02 F) total_charge;
          charge_50_percent = fmul F (c05 F) total_charge;
          charge_20_percent_time =
            percentile_time_fp times_sorted cumulative_charge charge_20_percent;
          charge_50_percent_time =
            percentile_time_fp times_sorted cumulative_charge charge_50_percent;
          charge_weighted_mean_time =
            (if less_d (Num 0) total_charge
             then fdiv F (weighted_sum_fp F times_sorted charges_sorted) total_charge
             else Num 0);
          charge_weighted_std_time =
            (if less_d (Num 0) total_charge
             then fsqrt F (fdiv F (weighted_variance_sum_fp F times_sorted charges_sorted
                                     charge_weighted_mean_time) total_charge)
             else Num 0)
      in [total_charge, charge_100ns, charge_500ns, first_pulse_time, last_pulse_time,
          charge_20_percent_time, charge_50_percent_time,
          charge_weighted_mean_time, charge_weighted_std_time])"

definition compute_summary_stats_fp ::
  "'a::{ord,zero} fpu \<Rightarrow> sorter \<Rightarrow> 'a double list \<Rightarrow> 'a double list \<Rightarrow> error + 'a double list"
where
  "compute_summary_stats_fp F std_sort times_in charges =
     (if times_in = [] then Inr [Num 0, Num 0, Num 0, Num 0, Num 0, Num 0, Num 0, Num 0, Num 0]
      else if length times_in \<noteq> length charges
      then Inl (length_error (length times_in) (length charges))
      else (case sorted_pulses_fp std_sort times_in charges of
              (times_sorted, charges_sorted) \<Rightarrow>
                Inr (stats_of_sorted_fp F times_sorted charges_sorted)))"

subsection \<open>One arithmetic to run the model with\<close>

text \<open>
  Exact arithmetic on the reals, with NaN for a division by zero, for the root of a
  negative number and for any operation on NaN, is one arithmetic \<open>F\<close>. The model is
  run with it on concrete pulses.
\<close>

fun lift2 :: "('a \<Rightarrow> 'a \<Rightarrow> 'a) \<Rightarrow> 'a double \<Rightarrow> 'a double \<Rightarrow> 'a double" where
  "lift2 f (Num a) (Num b) = Num (f a b)"
| "lift2 f _ _ = NaN"

fun exact_div :: "real double \<Rightarrow> real double \<Rightarrow> real double" where
  "exact_div (Num a) (Num b) = (if b = 0 then NaN else Num (a / b))"
| "exact_div _ _ = NaN"

fun exact_sqrt :: "real double \<Rightarrow> real double" where
  "exact_sqrt (Num a) = (if a < 0 then NaN else Num (sqrt a))"
| "exact_sqrt NaN = NaN"

definition exact :: "real fpu" where
  "exact = \<lparr>fadd = lift2 (+), fsub = lift2 (-), fmul = lift2 (*), fdiv = exact_div,
            fsqrt = exact_sqrt, c100 = Num 100, c500 = Num 500, c02 = Num 0.2, c05 = Num 0.5\<rparr>"

section \<open>Notions of the specification\<close>

text \<open>
  The specification computes in double precision and adds in sequence, so its sums are
  sums in the arithmetic \<open>F\<close>: \<open>fsum F qs\<close> adds the list from left to right, starting
  from \<^verbatim>\<open>0.0\<close>. The running cumulative charge at a position is the running charge at
  the position before plus the charge at the position, the first one being the first
  charge. \<open>first_exceeding_fp F cs threshold\<close> is the first position whose running
  charge is strictly greater than the threshold (the length of the list when there is
  none), and \<open>spec_percentile_time_fp\<close> reads the sorted times there, the position
  clamped to the last one, for the threshold \<open>fraction * total\<close>.
\<close>

definition fsum :: "'a::zero fpu \<Rightarrow> 'a double list \<Rightarrow> 'a double" where
  "fsum F qs = foldl (fadd F) (Num 0) qs"

fun running_charge_fp :: "'a fpu \<Rightarrow> 'a double list \<Rightarrow> nat \<Rightarrow> 'a double" where
  "running_charge_fp F cs 0 = cs ! 0"
| "running_charge_fp F cs (Suc i) = fadd F (running_charge_fp F cs i) (cs ! Suc i)"

definition first_exceeding_fp :: "'a::ord fpu \<Rightarrow> 'a double list \<Rightarrow> 'a double \<Rightarrow> nat" where
  "first_exceeding_fp F cs threshold =
     length (takeWhile (\<lambda>i. \<not> less_d threshold (running_charge_fp F cs i)) [0..<length cs])"

definition spec_percentile_time_fp ::
  "'a::{ord,zero} fpu \<Rightarrow> 'a double list \<Rightarrow> 'a double list \<Rightarrow> 'a double \<Rightarrow> 'a double" where
  "spec_percentile_time_fp F ts cs fraction =
     ts ! min (first_exceeding_fp F cs (fmul F fraction (fsum F cs))) (length ts - 1)"

text \<open>
  The charge of the pulses that arrive no later than a cutoff: the charges of the
  pulses \<open>(t, q)\<close> with \<open>t \<le> cutoff\<close>, added in the order of the list.
\<close>

definition charge_up_to_fp ::
  "'a::{ord,zero} fpu \<Rightarrow> 'a double list \<Rightarrow> 'a double list \<Rightarrow> 'a double \<Rightarrow> 'a double" where
  "charge_up_to_fp F ts cs cutoff =
     fsum F (map snd (filter (\<lambda>(t, q). le_d t cutoff) (zip ts cs)))"

text \<open>Reading a decimal numeral back, to state that \<open>to_string\<close> loses nothing.\<close>

definition digit_value :: "char \<Rightarrow> nat" where
  "digit_value c = of_char c - 48"

definition from_string :: "string \<Rightarrow> nat" where
  "from_string s = foldl (\<lambda>acc c. 10 * acc + digit_value c) 0 s"

section \<open>Facts about the library routines\<close>

subsection \<open>The sortedness test and the sorter used for evaluation\<close>

lemma is_sorted_iff: "is_sorted xs \<longleftrightarrow> sorted xs"
  by (induction xs rule: is_sorted.induct) auto

lemma mset_insert_by: "mset (insert_by lt x xs) = add_mset x (mset xs)"
  by (induction xs) auto

lemma set_insert_by: "set (insert_by lt x xs) = insert x (set xs)"
  by (induction xs) auto

lemma sorted_insert_by:
  fixes key :: "'a \<Rightarrow> real"
  shows "sorted (map key xs) \<Longrightarrow> sorted (map key (insert_by (\<lambda>a b. key a < key b) x xs))"
  by (induction xs) (auto simp: set_insert_by)

lemma foldl_insert_by:
  "mset (foldl (\<lambda>acc x. insert_by lt x acc) acc xs) = mset acc + mset xs"
  by (induction xs arbitrary: acc) (auto simp: mset_insert_by)

lemma foldl_insert_by_sorted:
  fixes key :: "'a \<Rightarrow> real"
  shows "sorted (map key acc) \<Longrightarrow>
         sorted (map key (foldl (\<lambda>acc x. insert_by (\<lambda>a b. key a < key b) x acc) acc xs))"
  by (induction xs arbitrary: acc) (auto simp: sorted_insert_by)

lemma insertion_sort_contract: "sort_contract insertion_sort"
proof -
  have "sorted (map key (insertion_sort (\<lambda>i1 i2. key i1 < key i2) xs))"
    for key :: "nat \<Rightarrow> real" and xs
    unfolding insertion_sort_def by (rule foldl_insert_by_sorted) simp
  moreover have "mset (insertion_sort lt xs) = mset xs" for lt and xs :: "nat list"
    by (simp add: insertion_sort_def foldl_insert_by)
  ultimately show ?thesis
    by (simp add: sort_contract_def)
qed

subsection \<open>The halving search\<close>

text \<open>On any list, ordered or not, the search ends between its start and its end.\<close>

lemma upper_bound_loop_range:
  "first \<le> upper_bound_loop xs val first len \<and> upper_bound_loop xs val first len \<le> first + len"
proof (induction xs val first len rule: upper_bound_loop.induct)
  case (1 xs val first len)
  show ?case
  proof (cases "0 < len")
    case False
    then show ?thesis by (subst (1 2) upper_bound_loop.simps) simp
  next
    case pos: True
    show ?thesis
    proof (cases "val < xs ! (first + len div 2)")
      case True
      have eq: "upper_bound_loop xs val first len = upper_bound_loop xs val first (len div 2)"
        using pos True by (subst upper_bound_loop.simps) simp
      from "1.IH"(1) [OF pos True] show ?thesis
        unfolding eq by linarith
    next
      case False
      have eq: "upper_bound_loop xs val first len =
                upper_bound_loop xs val (first + len div 2 + 1) (len - len div 2 - 1)"
        using pos False by (subst upper_bound_loop.simps) simp
      have "len div 2 < len"
        using pos by simp
      with "1.IH"(2) [OF pos False] show ?thesis
        unfolding eq by linarith
    qed
  qed
qed

lemma upper_bound_le: "upper_bound xs val \<le> length xs"
  using upper_bound_loop_range [of 0 xs val "length xs"] by (simp add: upper_bound_def)

text \<open>
  On an ordered list the search returns the position that separates the elements not
  greater than the value from the greater ones.
\<close>

lemma upper_bound_loop_partition:
  assumes "sorted xs" and "first + len \<le> length xs"
    and "\<forall>i<first. xs ! i \<le> val"
    and "\<forall>i. first + len \<le> i \<and> i < length xs \<longrightarrow> val < xs ! i"
  shows "(\<forall>i<upper_bound_loop xs val first len. xs ! i \<le> val) \<and>
         (\<forall>i. upper_bound_loop xs val first len \<le> i \<and> i < length xs \<longrightarrow> val < xs ! i)"
  using assms
proof (induction xs val first len rule: upper_bound_loop.induct)
  case (1 xs val first len)
  show ?case
  proof (cases "0 < len")
    case False
    then have "upper_bound_loop xs val first len = first"
      by (subst upper_bound_loop.simps) simp
    with False "1.prems" show ?thesis by simp
  next
    case pos: True
    let ?mid = "first + len div 2"
    have mid: "?mid < length xs"
      using pos "1.prems"(2) by (simp add: less_le_trans [OF _ "1.prems"(2)])
    show ?thesis
    proof (cases "val < xs ! ?mid")
      case True
      have eq: "upper_bound_loop xs val first len = upper_bound_loop xs val first (len div 2)"
        using pos True by (subst upper_bound_loop.simps) simp
      have above: "\<forall>i. first + len div 2 \<le> i \<and> i < length xs \<longrightarrow> val < xs ! i"
      proof (intro allI impI)
        fix i assume i: "first + len div 2 \<le> i \<and> i < length xs"
        then have "xs ! ?mid \<le> xs ! i"
          using \<open>sorted xs\<close> by (simp add: sorted_nth_mono)
        with True show "val < xs ! i" by simp
      qed
      have "first + len div 2 \<le> length xs"
        using mid by simp
      from "1.IH"(1) [OF pos True \<open>sorted xs\<close> this "1.prems"(3) above] show ?thesis
        unfolding eq .
    next
      case False
      have eq: "upper_bound_loop xs val first len =
                upper_bound_loop xs val (?mid + 1) (len - len div 2 - 1)"
        using pos False by (subst upper_bound_loop.simps) simp
      have below: "\<forall>i<?mid + 1. xs ! i \<le> val"
      proof (intro allI impI)
        fix i assume "i < ?mid + 1"
        then have "xs ! i \<le> xs ! ?mid"
          using \<open>sorted xs\<close> mid by (simp add: sorted_nth_mono)
        with False show "xs ! i \<le> val" by simp
      qed
      have sum: "?mid + 1 + (len - len div 2 - 1) = first + len"
        using pos by simp
      have le: "?mid + 1 + (len - len div 2 - 1) \<le> length xs"
        using "1.prems"(2) sum by simp
      have above: "\<forall>i. ?mid + 1 + (len - len div 2 - 1) \<le> i \<and> i < length xs \<longrightarrow> val < xs ! i"
        using "1.prems"(4) sum by simp
      from "1.IH"(2) [OF pos False \<open>sorted xs\<close> le below above] show ?thesis
        unfolding eq .
    qed
  qed
qed

lemma upper_bound_partition:
  assumes "sorted xs"
  shows "(\<forall>i<upper_bound xs val. xs ! i \<le> val) \<and>
         (\<forall>i. upper_bound xs val \<le> i \<and> i < length xs \<longrightarrow> val < xs ! i)"
  using upper_bound_loop_partition [OF assms, of 0 "length xs" val]
  by (simp add: upper_bound_def)

lemma filter_prefix:
  assumes "r \<le> length xs" and "\<forall>i<r. P (xs ! i)"
    and "\<forall>i. r \<le> i \<and> i < length xs \<longrightarrow> \<not> P (xs ! i)"
  shows "filter P xs = take r xs"
proof -
  have "filter P (take r xs) = take r xs"
    using assms(1,2) by (auto simp: filter_id_conv in_set_conv_nth)
  moreover have "filter P (drop r xs) = []"
    using assms(1,3) by (auto simp: filter_empty_conv in_set_conv_nth)
  ultimately have "filter P (take r xs @ drop r xs) = take r xs"
    by (simp del: append_take_drop_id)
  then show ?thesis by simp
qed

lemma takeWhile_upt_first:
  assumes "r \<le> n" and "\<forall>i<r. Q i" and "r < n \<longrightarrow> \<not> Q r"
  shows "length (takeWhile Q [0..<n]) = r"
proof -
  have split: "[0..<n] = [0..<r] @ [r..<n]"
    using assms(1) by (metis le_add_diff_inverse upt_add_eq_append zero_le)
  have "takeWhile Q [r..<n] = []"
    using assms(3) by (cases "r < n") (simp_all add: upt_conv_Cons)
  moreover have "takeWhile Q ([0..<r] @ [r..<n]) = [0..<r] @ takeWhile Q [r..<n]"
    by (rule takeWhile_append2) (use assms(2) in simp)
  ultimately have "takeWhile Q [0..<n] = [0..<r]"
    unfolding split by simp
  then show ?thesis by simp
qed

subsection \<open>Accumulation loops and cumulative sums\<close>

lemma foldl_add_sum_list:
  fixes f :: "'a \<Rightarrow> real"
  shows "foldl (\<lambda>acc i. acc + f i) a js = a + sum_list (map f js)"
  by (induction js arbitrary: a) simp_all

lemma accumulate_sum_list: "accumulate xs 0 = sum_list xs"
  using foldl_add_sum_list [of "\<lambda>x. x" 0 xs] by (simp add: accumulate_def)

lemma map_nth_upt_take: "k \<le> length xs \<Longrightarrow> map (\<lambda>i. xs ! i) [0..<k] = take k xs"
  by (rule nth_equalityI) simp_all

lemma length_partial_sum_from: "length (partial_sum_from acc xs) = length xs"
  by (induction xs arbitrary: acc) simp_all

lemma length_partial_sum: "length (partial_sum xs) = length xs"
  by (cases xs) (simp_all add: length_partial_sum_from)

lemma partial_sum_from_nth:
  "i < length xs \<Longrightarrow> partial_sum_from acc xs ! i = acc + sum_list (take (Suc i) xs)"
proof (induction xs arbitrary: acc i)
  case Nil
  then show ?case by simp
next
  case (Cons x xs)
  then show ?case by (cases i) simp_all
qed

lemma partial_sum_nth:
  "i < length xs \<Longrightarrow> partial_sum xs ! i = sum_list (take (Suc i) xs)"
proof (cases xs)
  case Nil
  assume "i < length xs"
  with Nil show ?thesis by simp
next
  case (Cons x ys)
  assume "i < length xs"
  with Cons show ?thesis by (cases i) (simp_all add: partial_sum_from_nth)
qed

lemma sorted_partial_sum:
  assumes "\<forall>q\<in>set xs. 0 \<le> q"
  shows "sorted (partial_sum xs)"
proof -
  have "partial_sum xs ! i \<le> partial_sum xs ! Suc i" if "Suc i < length xs" for i
  proof -
    have "0 \<le> xs ! Suc i"
      using assms that by simp
    moreover have "sum_list (take (Suc (Suc i)) xs) = sum_list (take (Suc i) xs) + xs ! Suc i"
      using that by (simp add: take_Suc_conv_app_nth)
    ultimately show ?thesis
      using that by (simp add: partial_sum_nth)
  qed
  then show ?thesis
    by (simp add: sorted_iff_nth_Suc length_partial_sum)
qed

section \<open>Facts about the kernel\<close>

subsection \<open>The sorted pulse sequence\<close>

text \<open>
  With a sorter that meets the contract, the kernel works on a rearrangement of the input
  pulses whose times are in non-decreasing order, each charge staying with its time.
\<close>

lemma sorted_pulses_sorted:
  assumes "sort_contract std_sort"
  shows "sorted (fst (sorted_pulses std_sort times_in charges))"
proof (cases "is_sorted times_in")
  case True
  then show ?thesis by (simp add: sorted_pulses_def is_sorted_iff)
next
  case False
  from assms have "sorted (map (\<lambda>i. times_in ! i)
      (std_sort (\<lambda>i1 i2. times_in ! i1 < times_in ! i2) [0..<length times_in]))"
    unfolding sort_contract_def by blast
  with False show ?thesis by (simp add: sorted_pulses_def Let_def)
qed

lemma sorted_pulses_zip:
  assumes "sort_contract std_sort" and "length times_in = length charges"
  shows "mset (zip (fst (sorted_pulses std_sort times_in charges))
                   (snd (sorted_pulses std_sort times_in charges))) =
         mset (zip times_in charges)"
proof (cases "is_sorted times_in")
  case True
  then show ?thesis by (simp add: sorted_pulses_def Let_def)
next
  case False
  let ?idx = "std_sort (\<lambda>i1 i2. times_in ! i1 < times_in ! i2) [0..<length times_in]"
  let ?pulse = "\<lambda>i. (times_in ! i, charges ! i)"
  from assms(1) have perm: "mset ?idx = mset [0..<length times_in]"
    unfolding sort_contract_def by blast
  have "zip (map (\<lambda>i. times_in ! i) ?idx) (map (\<lambda>i. charges ! i) ?idx) = map ?pulse ?idx"
    by (simp add: zip_map_map zip_same_conv_map)
  moreover have "mset (map ?pulse ?idx) = mset (map ?pulse [0..<length times_in])"
    using arg_cong [OF perm, of "image_mset ?pulse"] by (simp only: mset_map)
  moreover have "map ?pulse [0..<length times_in] = zip times_in charges"
    using assms(2) by (intro nth_equalityI) simp_all
  ultimately show ?thesis
    using False by (simp add: sorted_pulses_def Let_def)
qed

lemma sorted_pulses_length:
  assumes "sort_contract std_sort"
  shows "length (fst (sorted_pulses std_sort times_in charges)) = length times_in"
proof (cases "is_sorted times_in")
  case True
  then show ?thesis by (simp add: sorted_pulses_def Let_def)
next
  case False
  from assms have "mset (std_sort (\<lambda>i1 i2. times_in ! i1 < times_in ! i2) [0..<length times_in])
      = mset [0..<length times_in]"
    unfolding sort_contract_def by blast
  then have "length (std_sort (\<lambda>i1 i2. times_in ! i1 < times_in ! i2) [0..<length times_in])
      = length [0..<length times_in]"
    by (rule mset_eq_length)
  with False show ?thesis by (simp add: sorted_pulses_def Let_def)
qed

lemma sorted_pulses_length_charges:
  assumes "sort_contract std_sort" and "length times_in = length charges"
  shows "length (snd (sorted_pulses std_sort times_in charges)) = length times_in"
proof (cases "is_sorted times_in")
  case True
  then show ?thesis using assms(2) by (simp add: sorted_pulses_def Let_def)
next
  case False
  from assms have "mset (std_sort (\<lambda>i1 i2. times_in ! i1 < times_in ! i2) [0..<length times_in])
      = mset [0..<length times_in]"
    unfolding sort_contract_def by blast
  then have "length (std_sort (\<lambda>i1 i2. times_in ! i1 < times_in ! i2) [0..<length times_in])
      = length [0..<length times_in]"
    by (rule mset_eq_length)
  with False show ?thesis by (simp add: sorted_pulses_def Let_def)
qed

subsection \<open>The kernel on valid input\<close>

lemma compute_summary_stats_valid:
  "times_in \<noteq> [] \<Longrightarrow> length times_in = length charges \<Longrightarrow>
   compute_summary_stats std_sort times_in charges =
     Inr (stats_of_sorted (fst (sorted_pulses std_sort times_in charges))
                          (snd (sorted_pulses std_sort times_in charges)))"
  by (simp add: compute_summary_stats_def split: prod.splits)

lemma length_stats_of_sorted: "length (stats_of_sorted ts cs) = 9"
  by (simp add: stats_of_sorted_def Let_def)

lemma stats_total_charge: "stats_of_sorted ts cs ! 0 = accumulate cs 0"
  by (simp add: stats_of_sorted_def Let_def)

lemma stats_charge_100ns: "stats_of_sorted ts cs ! 1 = window_charge ts cs (ts ! 0 + 100)"
  by (simp add: stats_of_sorted_def Let_def)

lemma stats_charge_500ns: "stats_of_sorted ts cs ! 2 = window_charge ts cs (ts ! 0 + 500)"
  by (simp add: stats_of_sorted_def Let_def)

lemma stats_first_pulse_time: "stats_of_sorted ts cs ! 3 = ts ! 0"
  by (simp add: stats_of_sorted_def Let_def)

lemma stats_last_pulse_time: "stats_of_sorted ts cs ! 4 = last ts"
  by (simp add: stats_of_sorted_def Let_def)

lemma stats_charge_20_percent_time:
  "stats_of_sorted ts cs ! 5 = percentile_time ts (partial_sum cs) (0.2 * accumulate cs 0)"
  by (simp add: stats_of_sorted_def Let_def)

lemma stats_charge_50_percent_time:
  "stats_of_sorted ts cs ! 6 = percentile_time ts (partial_sum cs) (0.5 * accumulate cs 0)"
  by (simp add: stats_of_sorted_def Let_def)

lemma stats_charge_weighted_mean_time:
  "stats_of_sorted ts cs ! 7 =
     (if 0 < accumulate cs 0 then weighted_sum ts cs / accumulate cs 0 else 0)"
  by (simp add: stats_of_sorted_def Let_def)

lemma stats_charge_weighted_std_time:
  "stats_of_sorted ts cs ! 8 =
     (if 0 < accumulate cs 0
      then sqrt (weighted_variance_sum ts cs (weighted_sum ts cs / accumulate cs 0) /
                 accumulate cs 0)
      else 0)"
  by (simp add: stats_of_sorted_def Let_def)

lemmas stats_nth =
  stats_total_charge stats_charge_100ns stats_charge_500ns stats_first_pulse_time
  stats_last_pulse_time stats_charge_20_percent_time stats_charge_50_percent_time
  stats_charge_weighted_mean_time stats_charge_weighted_std_time

lemma sorted_pulses_mset_times:
  assumes "sort_contract std_sort" and "length times_in = length charges"
  shows "mset (fst (sorted_pulses std_sort times_in charges)) = mset times_in"
proof -
  let ?ts = "fst (sorted_pulses std_sort times_in charges)"
  let ?cs = "snd (sorted_pulses std_sort times_in charges)"
  have len: "length ?ts = length ?cs"
    using assms by (simp add: sorted_pulses_length sorted_pulses_length_charges)
  have "mset (map fst (zip ?ts ?cs)) = mset (map fst (zip times_in charges))"
    using arg_cong [OF sorted_pulses_zip [OF assms], of "image_mset fst"]
    by (simp only: mset_map)
  then show ?thesis
    using len assms(2) by simp
qed

lemma sorted_pulses_mset_charges:
  assumes "sort_contract std_sort" and "length times_in = length charges"
  shows "mset (snd (sorted_pulses std_sort times_in charges)) = mset charges"
proof -
  let ?ts = "fst (sorted_pulses std_sort times_in charges)"
  let ?cs = "snd (sorted_pulses std_sort times_in charges)"
  have len: "length ?ts = length ?cs"
    using assms by (simp add: sorted_pulses_length sorted_pulses_length_charges)
  have "mset (map snd (zip ?ts ?cs)) = mset (map snd (zip times_in charges))"
    using arg_cong [OF sorted_pulses_zip [OF assms], of "image_mset snd"]
    by (simp only: mset_map)
  then show ?thesis
    using len assms(2) by simp
qed

lemma percentile_index_in_range:
  "ts \<noteq> [] \<Longrightarrow> percentile_index ts cum threshold < length ts"
  by (cases ts) (simp_all add: percentile_index_def Let_def min_def)

lemma sorted_first_le: "sorted ts \<Longrightarrow> i < length ts \<Longrightarrow> ts ! 0 \<le> ts ! i"
  by (simp add: sorted_nth_mono)

lemma sorted_le_last: "sorted ts \<Longrightarrow> i < length ts \<Longrightarrow> ts ! i \<le> last ts"
  by (cases "ts = []") (simp_all add: last_conv_nth sorted_nth_mono)

lemma sorted_first_Min: "sorted ts \<Longrightarrow> ts \<noteq> [] \<Longrightarrow> ts ! 0 = Min (set ts)"
  by (cases ts) (auto intro!: Min_eqI [symmetric])

lemma sorted_last_Max: "sorted ts \<Longrightarrow> ts \<noteq> [] \<Longrightarrow> last ts = Max (set ts)"
proof -
  assume s: "sorted ts" and ne: "ts \<noteq> []"
  have "x \<le> last ts" if "x \<in> set ts" for x
    using that s by (auto simp: in_set_conv_nth sorted_le_last)
  then show ?thesis
    using ne by (intro Max_eqI [symmetric]) simp_all
qed

subsection \<open>The percentile search\<close>

text \<open>A larger threshold gives a later (or the same) position of the search.\<close>

lemma upper_bound_mono:
  assumes "sorted xs" and "v \<le> w"
  shows "upper_bound xs v \<le> upper_bound xs w"
proof (rule ccontr)
  assume "\<not> upper_bound xs v \<le> upper_bound xs w"
  then have lt: "upper_bound xs w < upper_bound xs v" by simp
  then have "upper_bound xs w < length xs"
    using upper_bound_le [of xs v] by simp
  with upper_bound_partition [OF assms(1), of w] have "w < xs ! upper_bound xs w"
    by simp
  moreover from upper_bound_partition [OF assms(1), of v] lt have "xs ! upper_bound xs w \<le> v"
    by simp
  ultimately show False
    using assms(2) by simp
qed

lemma percentile_time_mono:
  assumes "sorted ts" and "ts \<noteq> []" and "sorted cum" and "v \<le> w"
  shows "percentile_time ts cum v \<le> percentile_time ts cum w"
proof -
  have "percentile_index ts cum v \<le> percentile_index ts cum w"
    using upper_bound_mono [OF assms(3,4)] by (simp add: percentile_index_def Let_def min_def)
  then show ?thesis
    unfolding percentile_time_def
    using assms(1) percentile_index_in_range [OF assms(2)] by (intro sorted_nth_mono) simp_all
qed

subsection \<open>What the sorted sequence keeps of the input\<close>

lemma mset_eq_sum_list:
  fixes xs ys :: "real list"
  shows "mset xs = mset ys \<Longrightarrow> sum_list xs = sum_list ys"
  by (metis sum_mset_sum_list)

lemma sorted_pulses_total_charge:
  assumes "sort_contract std_sort" and "length times_in = length charges"
  shows "accumulate (snd (sorted_pulses std_sort times_in charges)) 0 = sum_list charges"
  using mset_eq_sum_list [OF sorted_pulses_mset_charges [OF assms]]
  by (simp add: accumulate_sum_list)

lemma sorted_pulses_nonempty:
  assumes "sort_contract std_sort" and "times_in \<noteq> []"
  shows "fst (sorted_pulses std_sort times_in charges) \<noteq> []"
  using sorted_pulses_length [OF assms(1), of times_in charges] assms(2) by auto

lemma sorted_pulses_set_times:
  assumes "sort_contract std_sort" and "length times_in = length charges"
  shows "set (fst (sorted_pulses std_sort times_in charges)) = set times_in"
  using sorted_pulses_mset_times [OF assms] by (rule mset_eq_setD)

lemma sorted_pulses_set_charges:
  assumes "sort_contract std_sort" and "length times_in = length charges"
  shows "set (snd (sorted_pulses std_sort times_in charges)) = set charges"
  using sorted_pulses_mset_charges [OF assms] by (rule mset_eq_setD)

lemma sorted_pulses_already_sorted:
  "is_sorted times_in \<Longrightarrow> sorted_pulses std_sort times_in charges = (times_in, charges)"
  by (simp add: sorted_pulses_def)

lemma percentile_times_ordered:
  assumes "sort_contract std_sort" and "times_in \<noteq> []"
    and "length times_in = length charges" and "\<forall>q\<in>set charges. 0 \<le> q"
  shows "stats_of_sorted (fst (sorted_pulses std_sort times_in charges))
                         (snd (sorted_pulses std_sort times_in charges)) ! 5
         \<le> stats_of_sorted (fst (sorted_pulses std_sort times_in charges))
                          (snd (sorted_pulses std_sort times_in charges)) ! 6"
proof -
  let ?ts = "fst (sorted_pulses std_sort times_in charges)"
  let ?cs = "snd (sorted_pulses std_sort times_in charges)"
  have nonneg: "\<forall>q\<in>set ?cs. 0 \<le> q"
    using assms(4) sorted_pulses_set_charges [OF assms(1,3)] by simp
  then have "0 \<le> sum_list ?cs"
    by (simp add: sum_list_nonneg)
  then have "0.2 * accumulate ?cs 0 \<le> 0.5 * accumulate ?cs 0"
    by (simp add: accumulate_sum_list)
  with sorted_pulses_sorted [OF assms(1)] sorted_pulses_nonempty [OF assms(1,2)]
    sorted_partial_sum [OF nonneg]
  show ?thesis
    unfolding stats_charge_20_percent_time stats_charge_50_percent_time
    by (rule percentile_time_mono)
qed

subsection \<open>Decimal rendering of the lengths\<close>

text \<open>The decimal numeral of a length determines the length.\<close>

lemma digit_value_digit_char: "d < 10 \<Longrightarrow> digit_value (digit_char d) = d"
  by (simp add: digit_value_def digit_char_def)

lemma from_string_snoc: "from_string (s @ [c]) = 10 * from_string s + digit_value c"
  by (simp add: from_string_def)

lemma from_string_to_string: "from_string (to_string n) = n"
proof (induction n rule: to_string.induct)
  case (1 n)
  show ?case
  proof (cases "n < 10")
    case True
    then show ?thesis
      by (subst to_string.simps) (simp add: from_string_def digit_value_digit_char)
  next
    case False
    with "1.IH" show ?thesis
      by (subst to_string.simps) (simp add: from_string_snoc digit_value_digit_char)
  qed
qed

subsection \<open>The outer length test of the batch driver\<close>

lemma batch_outer_length_mismatch:
  "length times_list \<noteq> length charges_list \<Longrightarrow>
   compute_summary_stats_batch std_sort times_list charges_list = Inl batch_error"
  by (simp add: compute_summary_stats_batch_def)

subsection \<open>The loop of the batch driver\<close>

text \<open>
  From position \<open>i\<close> on, the loop appends the kernel's vectors in order as long as the
  kernel succeeds, and ends with the kernel's error at the first pair it rejects.
\<close>

lemma compute_summary_stats_length:
  "compute_summary_stats std_sort times_in charges = Inr r \<Longrightarrow> length r = 9"
  by (auto simp: compute_summary_stats_def empty_stats_def length_stats_of_sorted
      split: if_splits prod.splits)

lemma batch_loop_success:
  assumes "\<forall>j. i \<le> j \<and> j < length times_list \<longrightarrow>
             compute_summary_stats std_sort (times_list ! j) (charges_list ! j) = Inr (f j)"
    and "i \<le> length times_list"
  shows "batch_loop std_sort times_list charges_list i results =
           Inr (results @ map f [i..<length times_list])"
  using assms
proof (induction std_sort times_list charges_list i results rule: batch_loop.induct)
  case (1 std_sort times_list charges_list i results)
  show ?case
  proof (cases "i < length times_list")
    case False
    with "1.prems"(2) show ?thesis
      by (subst batch_loop.simps) simp
  next
    case True
    with "1.prems"(1)
    have here: "compute_summary_stats std_sort (times_list ! i) (charges_list ! i) = Inr (f i)"
      by simp
    have "batch_loop std_sort times_list charges_list (Suc i) (results @ [f i]) =
          Inr ((results @ [f i]) @ map f [Suc i..<length times_list])"
      using True "1.prems"(1) by (intro "1.IH" [OF True here]) simp_all
    then show ?thesis
      using True here by (subst batch_loop.simps) (simp add: upt_conv_Cons)
  qed
qed

lemma batch_loop_failure:
  assumes "compute_summary_stats std_sort (times_list ! k) (charges_list ! k) = Inl e"
    and "\<forall>j. i \<le> j \<and> j < k \<longrightarrow>
           (\<exists>r. compute_summary_stats std_sort (times_list ! j) (charges_list ! j) = Inr r)"
    and "i \<le> k" and "k < length times_list"
  shows "batch_loop std_sort times_list charges_list i results = Inl e"
  using assms
proof (induction std_sort times_list charges_list i results rule: batch_loop.induct)
  case (1 std_sort times_list charges_list i results)
  have inside: "i < length times_list"
    using "1.prems"(3,4) by simp
  show ?case
  proof (cases "i = k")
    case True
    with "1.prems"(1) inside show ?thesis
      by (subst batch_loop.simps) simp
  next
    case False
    with "1.prems"(3) have lt: "i < k" by simp
    with "1.prems"(2) obtain r
      where here: "compute_summary_stats std_sort (times_list ! i) (charges_list ! i) = Inr r"
      by blast
    have "batch_loop std_sort times_list charges_list (Suc i) (results @ [r]) = Inl e"
      using "1.prems"(1,2,4) lt by (intro "1.IH" [OF inside here]) simp_all
    then show ?thesis
      using inside here by (subst batch_loop.simps) simp
  qed
qed

subsection \<open>Rearranged input with distinct times\<close>

text \<open>
  When no two pulses share a time there is only one way to list the pulses in time
  order, so two inputs that list the same pulses lead the kernel to the same sorted
  sequence and hence to the same result.
\<close>

lemma zip_sorted_pulses_unique:
  assumes "sorted ts" and "sorted ts'" and "distinct ts"
    and "length cs = length ts" and "length cs' = length ts'"
    and "mset (zip ts cs) = mset (zip ts' cs')"
  shows "ts = ts' \<and> cs = cs'"
proof -
  have fst_zip: "map fst (zip ts cs) = ts" "map fst (zip ts' cs') = ts'"
    and snd_zip: "map snd (zip ts cs) = cs" "map snd (zip ts' cs') = cs'"
    using assms(4,5) by simp_all
  have "mset (map fst (zip ts cs)) = mset (map fst (zip ts' cs'))"
    using assms(6) by (simp only: mset_map)
  then have "mset ts = mset ts'"
    by (simp only: fst_zip)
  then have "distinct ts \<longleftrightarrow> distinct ts'"
    by (rule mset_eq_imp_distinct_iff)
  with assms(3) have d': "distinct ts'"
    by blast
  have sets: "set (zip ts cs) = set (zip ts' cs')"
    using assms(6) by (rule mset_eq_setD)
  have "distinct (map fst (zip ts cs))"
    using assms(3) by (simp only: fst_zip)
  then have "inj_on fst (set (zip ts cs))"
    by (simp only: distinct_map)
  then have inj: "inj_on fst (set (zip ts cs) \<union> set (zip ts' cs'))"
    by (simp only: sets Un_absorb)
  have same: "zip ts cs = zip ts' cs'"
    using inj
  proof (rule map_sorted_distinct_set_unique)
    show "sorted (map fst (zip ts cs))" "distinct (map fst (zip ts cs))"
      using assms(1,3) by (simp_all only: fst_zip)
    show "sorted (map fst (zip ts' cs'))" "distinct (map fst (zip ts' cs'))"
      using assms(2) d' by (simp_all only: fst_zip)
    show "set (zip ts cs) = set (zip ts' cs')"
      by (rule sets)
  qed
  then have "map fst (zip ts cs) = map fst (zip ts' cs')"
    and "map snd (zip ts cs) = map snd (zip ts' cs')"
    by simp_all
  with fst_zip snd_zip show ?thesis
    by metis
qed

lemma compute_summary_stats_rearranged:
  assumes "sort_contract std_sort"
    and "length ts1 = length cs1" and "length ts2 = length cs2"
    and "mset (zip ts1 cs1) = mset (zip ts2 cs2)" and "distinct ts1"
  shows "compute_summary_stats std_sort ts1 cs1 = compute_summary_stats std_sort ts2 cs2"
proof (cases "ts1 = []")
  case True
  from assms(4) have "length (zip ts1 cs1) = length (zip ts2 cs2)"
    by (rule mset_eq_length)
  with True assms(3) have "ts2 = []" by simp
  with True show ?thesis
    by (simp add: compute_summary_stats_def)
next
  case False
  from assms(4) have "length (zip ts1 cs1) = length (zip ts2 cs2)"
    by (rule mset_eq_length)
  with False assms(2,3) have ne2: "ts2 \<noteq> []" by auto
  let ?a = "fst (sorted_pulses std_sort ts1 cs1)" and ?b = "snd (sorted_pulses std_sort ts1 cs1)"
  let ?a' = "fst (sorted_pulses std_sort ts2 cs2)" and ?b' = "snd (sorted_pulses std_sort ts2 cs2)"
  have "distinct ?a"
    using mset_eq_imp_distinct_iff [OF sorted_pulses_mset_times [OF assms(1,2)]] assms(5)
    by blast
  moreover have "mset (zip ?a ?b) = mset (zip ?a' ?b')"
    using sorted_pulses_zip [OF assms(1,2)] sorted_pulses_zip [OF assms(1,3)] assms(4)
    by simp
  moreover have "length ?b = length ?a" and "length ?b' = length ?a'"
    using assms(1,2,3) by (simp_all add: sorted_pulses_length sorted_pulses_length_charges)
  ultimately have "?a = ?a' \<and> ?b = ?b'"
    using sorted_pulses_sorted [OF assms(1), of ts1 cs1] sorted_pulses_sorted [OF assms(1), of ts2 cs2]
    by (intro zip_sorted_pulses_unique)
  then show ?thesis
    using compute_summary_stats_valid [OF False assms(2), of std_sort]
      compute_summary_stats_valid [OF ne2 assms(3), of std_sort] by simp
qed

lemma zip_gather:
  "zip (map (\<lambda>i. ts ! i) p) (map (\<lambda>i. cs ! i) p) = map (\<lambda>i. (ts ! i, cs ! i)) p"
  by (simp add: zip_map_map zip_same_conv_map)

lemma mset_gather:
  assumes "mset p = mset [0..<length ts]" and "length ts = length cs"
  shows "mset (zip (map (\<lambda>i. ts ! i) p) (map (\<lambda>i. cs ! i) p)) = mset (zip ts cs)"
proof -
  let ?pulse = "\<lambda>i. (ts ! i, cs ! i)"
  have "mset (map ?pulse p) = mset (map ?pulse [0..<length ts])"
    using arg_cong [OF assms(1), of "image_mset ?pulse"] by (simp only: mset_map)
  moreover have "map ?pulse [0..<length ts] = zip ts cs"
    using assms(2) by (intro nth_equalityI) simp_all
  ultimately show ?thesis
    by (simp only: zip_gather)
qed

subsection \<open>The kernel run on concrete pulses\<close>

text \<open>
  The single pulse of the specification's examples, and three pulses given out of time
  order, which go through the index sort.
\<close>

lemma single_pulse_example:
  "compute_summary_stats std_sort [10] [5] = Inr [5, 5, 5, 10, 10, 10, 10, 10, 0]"
proof -
  have sp: "sorted_pulses std_sort [10] [5] = ([10], [5])"
    by (rule sorted_pulses_already_sorted) simp
  have total: "accumulate [5] 0 = 5"
    by (simp add: accumulate_def)
  have "window_charge [10] [5] (10 + 100) = 5" and "window_charge [10] [5] (10 + 500) = 5"
    and "percentile_time [10] (partial_sum [5]) (0.2 * 5) = 10"
    and "percentile_time [10] (partial_sum [5]) (0.5 * 5) = 10"
    and "weighted_sum [10] [5] = 50"
    and "weighted_variance_sum [10] [5] (50 / 5) = 0"
    by code_simp+
  then have "stats_of_sorted [10] [5] = [5, 5, 5, 10, 10, 10, 10, 10, 0]"
    by (simp add: stats_of_sorted_def total)
  with compute_summary_stats_valid [of "[10]" "[5]" std_sort] sp show ?thesis
    by simp
qed

lemma unsorted_pulses_example:
  "compute_summary_stats insertion_sort [30, 10, 20] [1, 2, 3] =
     Inr [6, 6, 6, 10, 30, 10, 20, 55 / 3, sqrt (425 / 9)]"
proof -
  have sp: "sorted_pulses insertion_sort [30, 10, 20] [1, 2, 3] = ([10, 20, 30], [2, 3, 1])"
    by code_simp
  have total: "accumulate [2, 3, 1] 0 = 6"
    by (simp add: accumulate_def)
  have "window_charge [10, 20, 30] [2, 3, 1] (10 + 100) = 6"
    and "window_charge [10, 20, 30] [2, 3, 1] (10 + 500) = 6"
    and "percentile_time [10, 20, 30] (partial_sum [2, 3, 1]) (0.2 * 6) = 10"
    and "percentile_time [10, 20, 30] (partial_sum [2, 3, 1]) (0.5 * 6) = 20"
    and "weighted_sum [10, 20, 30] [2, 3, 1] = 110"
    and "weighted_variance_sum [10, 20, 30] [2, 3, 1] (55 / 3) = 850 / 3"
    by code_simp+
  then have "stats_of_sorted [10, 20, 30] [2, 3, 1] =
      [6, 6, 6, 10, 30, 10, 20, 55 / 3, sqrt (425 / 9)]"
    by (simp add: stats_of_sorted_def total Let_def)
  with compute_summary_stats_valid [of "[30, 10, 20]" "[1, 2, 3]" insertion_sort] sp show ?thesis
    by simp
qed

section \<open>Facts about the kernel in double arithmetic\<close>

subsection \<open>Order of doubles\<close>

lemma less_d_irrefl: "\<not> less_d (x :: 'a::linorder double) x"
  by (cases x) simp_all

lemma less_d_trans:
  "less_d (x :: 'a::linorder double) y \<Longrightarrow> less_d y z \<Longrightarrow> less_d x z"
  by (cases x; cases y; cases z) simp_all

lemma le_d_trans:
  "le_d (x :: 'a::linorder double) y \<Longrightarrow> le_d y z \<Longrightarrow> le_d x z"
  by (cases x; cases y; cases z) simp_all

lemma less_le_d_trans:
  "less_d (v :: 'a::linorder double) x \<Longrightarrow> le_d x y \<Longrightarrow> less_d v y"
  by (cases v; cases x; cases y) simp_all

lemma not_less_d_iff_le_d:
  "x \<noteq> NaN \<Longrightarrow> y \<noteq> NaN \<Longrightarrow> \<not> less_d y x \<longleftrightarrow> le_d (x :: 'a::linorder double) y"
  by (cases x; cases y) auto

lemma le_d_refl: "x \<noteq> NaN \<Longrightarrow> le_d (x :: 'a::linorder double) x"
  by (cases x) simp_all

lemma less_d_cases:
  "x \<noteq> NaN \<Longrightarrow> y \<noteq> NaN \<Longrightarrow> z \<noteq> NaN \<Longrightarrow>
   less_d (x :: 'a::linorder double) y \<Longrightarrow> less_d x z \<or> less_d z y"
  by (cases x; cases y; cases z) auto

subsection \<open>The comparison of the index sort\<close>

lemma time_order_strict_weak:
  fixes times_in :: "'a::linorder double list"
  assumes "NaN \<notin> set times_in"
  shows "strict_weak_order_on (set [0..<length times_in])
           (\<lambda>i1 i2. less_d (times_in ! i1) (times_in ! i2))"
proof -
  have num: "times_in ! i \<noteq> NaN" if "i < length times_in" for i
    using assms that by (metis nth_mem)
  show ?thesis
    unfolding strict_weak_order_on_def
    by (auto simp: less_d_irrefl intro: less_d_trans dest: less_d_cases [OF num num num])
qed

subsection \<open>Straight insertion meets the contract of the sort\<close>

text \<open>
  The sorter used for evaluation meets the contract for every strict weak ordering, and
  a sorter that does meets the contract stated above for comparisons by a real key.
\<close>

lemma sorted_wrt_insert_by:
  assumes "strict_weak_order_on S cmp" and "insert x (set xs) \<subseteq> S"
    and "sorted_wrt (\<lambda>a b. \<not> cmp b a) xs"
  shows "sorted_wrt (\<lambda>a b. \<not> cmp b a) (insert_by cmp x xs)"
  using assms(2,3)
proof (induction xs)
  case Nil
  then show ?case by simp
next
  case (Cons y ys)
  from assms(1) have irrefl: "\<And>a. a \<in> S \<Longrightarrow> \<not> cmp a a"
    and trans: "\<And>a b c. a \<in> S \<Longrightarrow> b \<in> S \<Longrightarrow> c \<in> S \<Longrightarrow> cmp a b \<Longrightarrow> cmp b c \<Longrightarrow> cmp a c"
    unfolding strict_weak_order_on_def by blast+
  have xS: "x \<in> S" and yS: "y \<in> S" and ysS: "set ys \<subseteq> S"
    using Cons.prems(1) by auto
  show ?case
  proof (cases "cmp x y")
    case True
    have "\<not> cmp z x" if "z \<in> set (y # ys)" for z
    proof
      assume zx: "cmp z x"
      have zS: "z \<in> S" using that yS ysS by auto
      from trans [OF zS xS yS zx True] have "cmp z y" .
      with that Cons.prems(2) irrefl [OF yS] show False by auto
    qed
    with True Cons.prems(2) show ?thesis by simp
  next
    case False
    have "sorted_wrt (\<lambda>a b. \<not> cmp b a) (insert_by cmp x ys)"
      using Cons.prems xS ysS by (intro Cons.IH) auto
    with False Cons.prems(2) show ?thesis
      by (auto simp: set_insert_by)
  qed
qed

lemma foldl_insert_by_sorted_wrt:
  assumes "strict_weak_order_on S cmp" and "set acc \<union> set xs \<subseteq> S"
    and "sorted_wrt (\<lambda>a b. \<not> cmp b a) acc"
  shows "sorted_wrt (\<lambda>a b. \<not> cmp b a) (foldl (\<lambda>acc x. insert_by cmp x acc) acc xs)"
  using assms(2,3)
proof (induction xs arbitrary: acc)
  case Nil
  then show ?case by simp
next
  case (Cons x xs)
  have "sorted_wrt (\<lambda>a b. \<not> cmp b a) (insert_by cmp x acc)"
    using assms(1) Cons.prems by (intro sorted_wrt_insert_by [where S = S]) auto
  moreover have "set (insert_by cmp x acc) \<union> set xs \<subseteq> S"
    using Cons.prems(1) by (auto simp: set_insert_by)
  ultimately show ?case
    using Cons.IH by simp
qed

lemma insertion_sort_std_contract: "std_sort_contract insertion_sort"
proof -
  have "sorted_wrt (\<lambda>a b. \<not> cmp b a) (insertion_sort cmp xs)"
    if "strict_weak_order_on (set xs) cmp" for cmp and xs :: "nat list"
    unfolding insertion_sort_def using that by (rule foldl_insert_by_sorted_wrt) simp_all
  moreover have "mset (insertion_sort cmp xs) = mset xs" for cmp and xs :: "nat list"
    by (simp add: insertion_sort_def foldl_insert_by)
  ultimately show ?thesis
    by (simp add: std_sort_contract_def)
qed

lemma key_order_strict_weak:
  fixes key :: "nat \<Rightarrow> real"
  shows "strict_weak_order_on S (\<lambda>i1 i2. key i1 < key i2)"
  unfolding strict_weak_order_on_def by auto

lemma std_sort_contract_sort_contract:
  assumes "std_sort_contract std_sort"
  shows "sort_contract std_sort"
proof -
  have "mset (std_sort (\<lambda>i1 i2. key i1 < key i2) xs) = mset xs \<and>
        sorted (map key (std_sort (\<lambda>i1 i2. key i1 < key i2) xs))"
    for key :: "nat \<Rightarrow> real" and xs
  proof -
    from assms key_order_strict_weak [of "set xs" key]
    have perm: "mset (std_sort (\<lambda>i1 i2. key i1 < key i2) xs) = mset xs"
      and ordered: "sorted_wrt (\<lambda>a b. \<not> key b < key a) (std_sort (\<lambda>i1 i2. key i1 < key i2) xs)"
      unfolding std_sort_contract_def by blast+
    from ordered have "sorted_wrt (\<lambda>a b. key a \<le> key b) (std_sort (\<lambda>i1 i2. key i1 < key i2) xs)"
      by (rule sorted_wrt_mono_rel [rotated]) simp
    then have "sorted (map key (std_sort (\<lambda>i1 i2. key i1 < key i2) xs))"
      by (simp add: sorted_map)
    with perm show ?thesis by blast
  qed
  then show ?thesis
    by (simp add: sort_contract_def)
qed

subsection \<open>The halving search on doubles\<close>

lemma upper_bound_loop_fp_range:
  "first \<le> upper_bound_loop_fp xs val first len \<and>
   upper_bound_loop_fp xs val first len \<le> first + len"
proof (induction xs val first len rule: upper_bound_loop_fp.induct)
  case (1 xs val first len)
  show ?case
  proof (cases "0 < len")
    case False
    then show ?thesis by (subst (1 2) upper_bound_loop_fp.simps) simp
  next
    case pos: True
    show ?thesis
    proof (cases "less_d val (xs ! (first + len div 2))")
      case True
      have eq: "upper_bound_loop_fp xs val first len = upper_bound_loop_fp xs val first (len div 2)"
        using pos True by (subst upper_bound_loop_fp.simps) simp
      from "1.IH"(1) [OF pos True] show ?thesis
        unfolding eq by linarith
    next
      case False
      have eq: "upper_bound_loop_fp xs val first len =
                upper_bound_loop_fp xs val (first + len div 2 + 1) (len - len div 2 - 1)"
        using pos False by (subst upper_bound_loop_fp.simps) simp
      have "len div 2 < len"
        using pos by simp
      with "1.IH"(2) [OF pos False] show ?thesis
        unfolding eq by linarith
    qed
  qed
qed

lemma upper_bound_fp_le: "upper_bound_fp xs val \<le> length xs"
  using upper_bound_loop_fp_range [of 0 xs val "length xs"] by (simp add: upper_bound_fp_def)

lemma upper_bound_loop_fp_partition:
  assumes "\<forall>i j. i \<le> j \<and> j < length xs \<and> less_d val (xs ! i) \<longrightarrow> less_d val (xs ! j)"
    and "first + len \<le> length xs"
    and "\<forall>i<first. \<not> less_d val (xs ! i)"
    and "\<forall>i. first + len \<le> i \<and> i < length xs \<longrightarrow> less_d val (xs ! i)"
  shows "(\<forall>i<upper_bound_loop_fp xs val first len. \<not> less_d val (xs ! i)) \<and>
         (\<forall>i. upper_bound_loop_fp xs val first len \<le> i \<and> i < length xs \<longrightarrow>
              less_d val (xs ! i))"
  using assms
proof (induction xs val first len rule: upper_bound_loop_fp.induct)
  case (1 xs val first len)
  note mono = "1.prems"(1)
  show ?case
  proof (cases "0 < len")
    case False
    then have "upper_bound_loop_fp xs val first len = first"
      by (subst upper_bound_loop_fp.simps) simp
    with False "1.prems"(2-4) show ?thesis by simp
  next
    case pos: True
    let ?mid = "first + len div 2"
    have mid: "?mid < length xs"
      using pos "1.prems"(2) by (simp add: less_le_trans [OF _ "1.prems"(2)])
    show ?thesis
    proof (cases "less_d val (xs ! ?mid)")
      case True
      have eq: "upper_bound_loop_fp xs val first len = upper_bound_loop_fp xs val first (len div 2)"
        using pos True by (subst upper_bound_loop_fp.simps) simp
      have above: "\<forall>i. first + len div 2 \<le> i \<and> i < length xs \<longrightarrow> less_d val (xs ! i)"
        using mono True by blast
      have "first + len div 2 \<le> length xs"
        using mid by simp
      from "1.IH"(1) [OF pos True mono this "1.prems"(3) above] show ?thesis
        unfolding eq .
    next
      case False
      have eq: "upper_bound_loop_fp xs val first len =
                upper_bound_loop_fp xs val (?mid + 1) (len - len div 2 - 1)"
        using pos False by (subst upper_bound_loop_fp.simps) simp
      have below: "\<forall>i<?mid + 1. \<not> less_d val (xs ! i)"
      proof (intro allI impI)
        fix i assume "i < ?mid + 1"
        then have "i \<le> ?mid" by simp
        with mono mid False show "\<not> less_d val (xs ! i)" by blast
      qed
      have sum: "?mid + 1 + (len - len div 2 - 1) = first + len"
        using pos by simp
      have le: "?mid + 1 + (len - len div 2 - 1) \<le> length xs"
        using "1.prems"(2) sum by simp
      have above: "\<forall>i. ?mid + 1 + (len - len div 2 - 1) \<le> i \<and> i < length xs \<longrightarrow>
          less_d val (xs ! i)"
        using "1.prems"(4) sum by simp
      from "1.IH"(2) [OF pos False mono le below above] show ?thesis
        unfolding eq .
    qed
  qed
qed

lemma sorted_wrt_le_d_upward:
  fixes xs :: "'a::linorder double list"
  assumes "sorted_wrt le_d xs"
  shows "\<forall>i j. i \<le> j \<and> j < length xs \<and> less_d val (xs ! i) \<longrightarrow> less_d val (xs ! j)"
proof (intro allI impI)
  fix i j assume h: "i \<le> j \<and> j < length xs \<and> less_d val (xs ! i)"
  show "less_d val (xs ! j)"
  proof (cases "i = j")
    case True
    with h show ?thesis by simp
  next
    case False
    with h have "i < j" by simp
    with assms h have "le_d (xs ! i) (xs ! j)"
      by (simp add: sorted_wrt_nth_less)
    with h show ?thesis by (blast intro: less_le_d_trans)
  qed
qed

lemma upper_bound_fp_partition:
  fixes xs :: "'a::linorder double list"
  assumes "sorted_wrt le_d xs"
  shows "(\<forall>i<upper_bound_fp xs val. \<not> less_d val (xs ! i)) \<and>
         (\<forall>i. upper_bound_fp xs val \<le> i \<and> i < length xs \<longrightarrow> less_d val (xs ! i))"
proof -
  have a: "0 + length xs \<le> length xs"
    and b: "\<forall>i<0. \<not> less_d val (xs ! i)"
    by simp_all
  have c: "\<forall>i. 0 + length xs \<le> i \<and> i < length xs \<longrightarrow> less_d val (xs ! i)"
    by (intro allI impI) linarith
  show ?thesis
    unfolding upper_bound_fp_def
    by (rule upper_bound_loop_fp_partition [OF sorted_wrt_le_d_upward [OF assms] a b c])
qed

subsection \<open>Accumulation loops and cumulative sums in double arithmetic\<close>

lemma accumulate_fp_fsum: "accumulate_fp F cs (Num 0) = fsum F cs"
  by (simp add: accumulate_fp_def fsum_def)

lemma window_charge_fp_take:
  "upper_bound_fp times_sorted cutoff \<le> length charges_sorted \<Longrightarrow>
   window_charge_fp F times_sorted charges_sorted cutoff =
     fsum F (take (upper_bound_fp times_sorted cutoff) charges_sorted)"
proof -
  assume k: "upper_bound_fp times_sorted cutoff \<le> length charges_sorted"
  let ?k = "upper_bound_fp times_sorted cutoff"
  have "fsum F (take ?k charges_sorted) =
        foldl (fadd F) (Num 0) (map (\<lambda>i. charges_sorted ! i) [0..<?k])"
    unfolding fsum_def by (simp only: map_nth_upt_take [OF k])
  also have "\<dots> = foldl (\<lambda>acc i. fadd F acc (charges_sorted ! i)) (Num 0) [0..<?k]"
    by (rule foldl_map)
  finally show ?thesis
    by (simp add: window_charge_fp_def)
qed

lemma weighted_sum_fp_zip:
  assumes "length cs = length ts"
  shows "weighted_sum_fp F ts cs = fsum F (map (\<lambda>(t, q). fmul F t q) (zip ts cs))"
proof -
  have eq: "map (\<lambda>(t, q). fmul F t q) (zip ts cs) =
        map (\<lambda>i. fmul F (ts ! i) (cs ! i)) [0..<length ts]"
    using assms by (intro nth_equalityI) simp_all
  have "fsum F (map (\<lambda>(t, q). fmul F t q) (zip ts cs)) =
        foldl (fadd F) (Num 0) (map (\<lambda>i. fmul F (ts ! i) (cs ! i)) [0..<length ts])"
    unfolding fsum_def by (simp only: eq)
  also have "\<dots> = foldl (\<lambda>acc i. fadd F acc (fmul F (ts ! i) (cs ! i))) (Num 0) [0..<length ts]"
    by (rule foldl_map)
  finally show ?thesis
    by (simp add: weighted_sum_fp_def)
qed

lemma weighted_variance_sum_fp_zip:
  assumes "length cs = length ts"
  shows "weighted_variance_sum_fp F ts cs m =
         fsum F (map (\<lambda>(t, q). fmul F (fmul F q (fsub F t m)) (fsub F t m)) (zip ts cs))"
proof -
  let ?summand = "\<lambda>i. fmul F (fmul F (cs ! i) (fsub F (ts ! i) m)) (fsub F (ts ! i) m)"
  have eq: "map (\<lambda>(t, q). fmul F (fmul F q (fsub F t m)) (fsub F t m)) (zip ts cs) =
        map ?summand [0..<length ts]"
    using assms by (intro nth_equalityI) simp_all
  have "fsum F (map (\<lambda>(t, q). fmul F (fmul F q (fsub F t m)) (fsub F t m)) (zip ts cs)) =
        foldl (fadd F) (Num 0) (map ?summand [0..<length ts])"
    unfolding fsum_def by (simp only: eq)
  also have "\<dots> = foldl (\<lambda>acc i. fadd F acc (?summand i)) (Num 0) [0..<length ts]"
    by (rule foldl_map)
  finally show ?thesis
    by (simp add: weighted_variance_sum_fp_def)
qed

lemma length_partial_sum_from_fp: "length (partial_sum_from_fp F acc xs) = length xs"
  by (induction xs arbitrary: acc) simp_all

lemma length_partial_sum_fp: "length (partial_sum_fp F xs) = length xs"
  by (cases xs) (simp_all add: length_partial_sum_from_fp)

lemma partial_sum_from_fp_0:
  "xs \<noteq> [] \<Longrightarrow> partial_sum_from_fp F acc xs ! 0 = fadd F acc (xs ! 0)"
  by (cases xs) simp_all

lemma partial_sum_from_fp_Suc:
  "Suc i < length xs \<Longrightarrow>
   partial_sum_from_fp F acc xs ! Suc i = fadd F (partial_sum_from_fp F acc xs ! i) (xs ! Suc i)"
proof (induction xs arbitrary: acc i)
  case Nil
  then show ?case by simp
next
  case (Cons x xs)
  show ?case
  proof (cases i)
    case 0
    with Cons.prems show ?thesis
      by (simp add: partial_sum_from_fp_0)
  next
    case (Suc k)
    with Cons.prems Cons.IH [of k "fadd F acc x"] show ?thesis
      by simp
  qed
qed

lemma partial_sum_fp_Suc:
  "Suc i < length xs \<Longrightarrow>
   partial_sum_fp F xs ! Suc i = fadd F (partial_sum_fp F xs ! i) (xs ! Suc i)"
proof (cases xs)
  case Nil
  assume "Suc i < length xs"
  with Nil show ?thesis by simp
next
  case (Cons x ys)
  assume "Suc i < length xs"
  with Cons show ?thesis
    by (cases i) (simp_all add: partial_sum_from_fp_0 partial_sum_from_fp_Suc)
qed

lemma partial_sum_fp_nth:
  "i < length xs \<Longrightarrow> partial_sum_fp F xs ! i = running_charge_fp F xs i"
proof (induction i)
  case 0
  then show ?case by (cases xs) simp_all
next
  case (Suc i)
  then show ?case by (simp add: partial_sum_fp_Suc)
qed

lemma running_charge_fp_nonneg:
  fixes cs :: "'a::{linorder,zero} double list"
  assumes nonneg: "\<forall>c\<in>set cs. le_d (Num 0) c"
    and mono: "\<forall>a q. 0 \<le> a \<and> 0 \<le> q \<longrightarrow> (\<exists>s. fadd F (Num a) (Num q) = Num s \<and> a \<le> s)"
    and "i < length cs"
  shows "le_d (Num 0) (running_charge_fp F cs i)"
  using assms(3)
proof (induction i)
  case 0
  then show ?case using nonneg by simp
next
  case (Suc i)
  then have "le_d (Num 0) (running_charge_fp F cs i)" by simp
  then obtain a where a: "running_charge_fp F cs i = Num a" "0 \<le> a"
    by (cases "running_charge_fp F cs i") simp_all
  from Suc.prems nonneg have "le_d (Num 0) (cs ! Suc i)" by simp
  then obtain q where q: "cs ! Suc i = Num q" "0 \<le> q"
    by (cases "cs ! Suc i") simp_all
  from mono a(2) q(2) obtain s where "fadd F (Num a) (Num q) = Num s" "a \<le> s"
    by blast
  with a q show ?case by simp
qed

lemma running_charge_fp_step:
  fixes cs :: "'a::{linorder,zero} double list"
  assumes nonneg: "\<forall>c\<in>set cs. le_d (Num 0) c"
    and mono: "\<forall>a q. 0 \<le> a \<and> 0 \<le> q \<longrightarrow> (\<exists>s. fadd F (Num a) (Num q) = Num s \<and> a \<le> s)"
    and "Suc i < length cs"
  shows "le_d (running_charge_fp F cs i) (running_charge_fp F cs (Suc i))"
proof -
  have "le_d (Num 0) (running_charge_fp F cs i)"
    using nonneg mono assms(3) by (intro running_charge_fp_nonneg) simp_all
  then obtain a where a: "running_charge_fp F cs i = Num a" "0 \<le> a"
    by (cases "running_charge_fp F cs i") simp_all
  from assms(3) nonneg have "le_d (Num 0) (cs ! Suc i)" by simp
  then obtain q where q: "cs ! Suc i = Num q" "0 \<le> q"
    by (cases "cs ! Suc i") simp_all
  from mono a(2) q(2) obtain s where "fadd F (Num a) (Num q) = Num s" "a \<le> s"
    by blast
  with a q show ?thesis by simp
qed

lemma transp_le_d: "transp (le_d :: 'a::linorder double \<Rightarrow> 'a double \<Rightarrow> bool)"
  by (rule transpI) (rule le_d_trans)

lemma sorted_partial_sum_fp:
  fixes cs :: "'a::{linorder,zero} double list"
  assumes "\<forall>c\<in>set cs. le_d (Num 0) c"
    and "\<forall>a q. 0 \<le> a \<and> 0 \<le> q \<longrightarrow> (\<exists>s. fadd F (Num a) (Num q) = Num s \<and> a \<le> s)"
  shows "sorted_wrt le_d (partial_sum_fp F cs)"
proof -
  have "le_d (partial_sum_fp F cs ! i) (partial_sum_fp F cs ! Suc i)"
    if "Suc i < length cs" for i
    using running_charge_fp_step [OF assms that] that by (simp add: partial_sum_fp_nth)
  then show ?thesis
    by (simp add: sorted_wrt_iff_nth_Suc_transp [OF transp_le_d] length_partial_sum_fp)
qed

subsection \<open>The sorted pulse sequence in the double model\<close>

lemma is_sorted_fp_sorted_wrt:
  fixes xs :: "'a::linorder double list"
  shows "is_sorted_fp xs \<Longrightarrow> NaN \<notin> set xs \<Longrightarrow> sorted_wrt le_d xs"
proof (induction xs rule: is_sorted_fp.induct)
  case 1
  then show ?case by simp
next
  case (2 x)
  then show ?case by simp
next
  case (3 x y ys)
  from "3.prems" have nl: "\<not> less_d y x" and rest: "is_sorted_fp (y # ys)"
    by (simp_all split: if_splits)
  from "3.prems"(2) have "x \<noteq> NaN" "y \<noteq> NaN" by auto
  with nl have xy: "le_d x y" by (simp add: not_less_d_iff_le_d)
  have tail: "sorted_wrt le_d (y # ys)"
    using "3.IH" nl rest "3.prems"(2) by simp
  then have "le_d x z" if "z \<in> set ys" for z
    using that xy by (auto intro: le_d_trans)
  with xy tail show ?case by auto
qed

lemma sorted_pulses_fp_already_sorted:
  "is_sorted_fp times_in \<Longrightarrow> sorted_pulses_fp std_sort times_in charges = (times_in, charges)"
  by (simp add: sorted_pulses_fp_def)

lemma sorted_pulses_fp_spec:
  fixes times_in :: "'a::linorder double list"
  assumes "std_sort_contract std_sort" and "NaN \<notin> set times_in"
    and "length times_in = length charges"
  shows "sorted_wrt le_d (fst (sorted_pulses_fp std_sort times_in charges)) \<and>
         length (fst (sorted_pulses_fp std_sort times_in charges)) = length times_in \<and>
         length (snd (sorted_pulses_fp std_sort times_in charges)) = length times_in \<and>
         mset (zip (fst (sorted_pulses_fp std_sort times_in charges))
                   (snd (sorted_pulses_fp std_sort times_in charges))) =
           mset (zip times_in charges)"
proof (cases "is_sorted_fp times_in")
  case True
  with assms(2,3) show ?thesis
    by (simp add: sorted_pulses_fp_already_sorted is_sorted_fp_sorted_wrt)
next
  case False
  let ?cmp = "\<lambda>i1 i2. less_d (times_in ! i1) (times_in ! i2)"
  let ?idx = "std_sort ?cmp [0..<length times_in]"
  have sp: "sorted_pulses_fp std_sort times_in charges =
      (map (\<lambda>i. times_in ! i) ?idx, map (\<lambda>i. charges ! i) ?idx)"
    using False by (simp add: sorted_pulses_fp_def Let_def)
  from assms(1) time_order_strict_weak [OF assms(2)]
  have perm: "mset ?idx = mset [0..<length times_in]"
    and ordered: "sorted_wrt (\<lambda>a b. \<not> ?cmp b a) ?idx"
    unfolding std_sort_contract_def by blast+
  have len: "length ?idx = length times_in"
    using mset_eq_length [OF perm] by simp
  have inside: "i < length times_in" if "i \<in> set ?idx" for i
    using that mset_eq_setD [OF perm] by auto
  have num: "times_in ! i \<noteq> NaN" if "i \<in> set ?idx" for i
    using inside [OF that] assms(2) by (metis nth_mem)
  have "sorted_wrt (\<lambda>a b. le_d (times_in ! a) (times_in ! b)) ?idx"
    using ordered
  proof (rule sorted_wrt_mono_rel [rotated])
    fix a b assume "a \<in> set ?idx" "b \<in> set ?idx" "\<not> ?cmp b a"
    then show "le_d (times_in ! a) (times_in ! b)"
      using num by (simp add: not_less_d_iff_le_d)
  qed
  then have "sorted_wrt le_d (map (\<lambda>i. times_in ! i) ?idx)"
    by (simp add: sorted_wrt_map)
  moreover have "mset (zip (map (\<lambda>i. times_in ! i) ?idx) (map (\<lambda>i. charges ! i) ?idx)) =
      mset (zip times_in charges)"
    using perm assms(3) by (rule mset_gather)
  ultimately show ?thesis
    using len by (simp add: sp)
qed

lemma sorted_pulses_fp_set_times:
  fixes times_in :: "'a::linorder double list"
  assumes "std_sort_contract std_sort" and "NaN \<notin> set times_in"
    and "length times_in = length charges"
  shows "set (fst (sorted_pulses_fp std_sort times_in charges)) = set times_in"
proof -
  let ?ts = "fst (sorted_pulses_fp std_sort times_in charges)"
  let ?cs = "snd (sorted_pulses_fp std_sort times_in charges)"
  from sorted_pulses_fp_spec [OF assms]
  have len: "length ?ts = length ?cs" and perm: "mset (zip ?ts ?cs) = mset (zip times_in charges)"
    by simp_all
  have "mset (map fst (zip ?ts ?cs)) = mset (map fst (zip times_in charges))"
    using arg_cong [OF perm, of "image_mset fst"] by (simp only: mset_map)
  then have "mset ?ts = mset times_in"
    using len assms(3) by simp
  then show ?thesis by (rule mset_eq_setD)
qed

lemma sorted_pulses_fp_set_charges:
  fixes times_in :: "'a::linorder double list"
  assumes "std_sort_contract std_sort" and "NaN \<notin> set times_in"
    and "length times_in = length charges"
  shows "set (snd (sorted_pulses_fp std_sort times_in charges)) = set charges"
proof -
  let ?ts = "fst (sorted_pulses_fp std_sort times_in charges)"
  let ?cs = "snd (sorted_pulses_fp std_sort times_in charges)"
  from sorted_pulses_fp_spec [OF assms]
  have len: "length ?ts = length ?cs" and perm: "mset (zip ?ts ?cs) = mset (zip times_in charges)"
    by simp_all
  have "mset (map snd (zip ?ts ?cs)) = mset (map snd (zip times_in charges))"
    using arg_cong [OF perm, of "image_mset snd"] by (simp only: mset_map)
  then have "mset ?cs = mset charges"
    using len assms(3) by simp
  then show ?thesis by (rule mset_eq_setD)
qed

subsection \<open>The double kernel on valid input\<close>

lemma compute_summary_stats_fp_valid:
  "times_in \<noteq> [] \<Longrightarrow> length times_in = length charges \<Longrightarrow>
   compute_summary_stats_fp F std_sort times_in charges =
     Inr (stats_of_sorted_fp F (fst (sorted_pulses_fp std_sort times_in charges))
                               (snd (sorted_pulses_fp std_sort times_in charges)))"
  by (simp add: compute_summary_stats_fp_def split: prod.splits)

lemma fp_total_charge: "stats_of_sorted_fp F ts cs ! 0 = accumulate_fp F cs (Num 0)"
  by (simp add: stats_of_sorted_fp_def Let_def)

lemma fp_charge_100ns:
  "stats_of_sorted_fp F ts cs ! 1 = window_charge_fp F ts cs (fadd F (ts ! 0) (c100 F))"
  by (simp add: stats_of_sorted_fp_def Let_def)

lemma fp_charge_500ns:
  "stats_of_sorted_fp F ts cs ! 2 = window_charge_fp F ts cs (fadd F (ts ! 0) (c500 F))"
  by (simp add: stats_of_sorted_fp_def Let_def)

lemma fp_first_pulse_time: "stats_of_sorted_fp F ts cs ! 3 = ts ! 0"
  by (simp add: stats_of_sorted_fp_def Let_def)

lemma fp_charge_20_percent_time:
  "stats_of_sorted_fp F ts cs ! 5 =
     percentile_time_fp ts (partial_sum_fp F cs) (fmul F (c02 F) (accumulate_fp F cs (Num 0)))"
  by (simp add: stats_of_sorted_fp_def Let_def)

lemma fp_charge_50_percent_time:
  "stats_of_sorted_fp F ts cs ! 6 =
     percentile_time_fp ts (partial_sum_fp F cs) (fmul F (c05 F) (accumulate_fp F cs (Num 0)))"
  by (simp add: stats_of_sorted_fp_def Let_def)

lemma fp_charge_weighted_mean_time:
  "stats_of_sorted_fp F ts cs ! 7 =
     (if less_d (Num 0) (accumulate_fp F cs (Num 0))
      then fdiv F (weighted_sum_fp F ts cs) (accumulate_fp F cs (Num 0)) else Num 0)"
  by (simp add: stats_of_sorted_fp_def Let_def)

lemma fp_charge_weighted_std_time:
  "stats_of_sorted_fp F ts cs ! 8 =
     (if less_d (Num 0) (accumulate_fp F cs (Num 0))
      then fsqrt F (fdiv F (weighted_variance_sum_fp F ts cs
                              (fdiv F (weighted_sum_fp F ts cs) (accumulate_fp F cs (Num 0))))
                           (accumulate_fp F cs (Num 0)))
      else Num 0)"
  by (simp add: stats_of_sorted_fp_def Let_def)

subsection \<open>The window charges in the double model\<close>

lemma window_charge_fp_sorted:
  fixes ts :: "'a::{linorder,zero} double list"
  assumes "sorted_wrt le_d ts" and "length cs = length ts"
  shows "window_charge_fp F ts cs cutoff =
         fsum F (map snd (filter (\<lambda>(t, q). \<not> less_d cutoff t) (zip ts cs)))"
proof -
  let ?k = "upper_bound_fp ts cutoff"
  let ?P = "\<lambda>(t :: 'a double, q :: 'a double). \<not> less_d cutoff t"
  have k: "?k \<le> length ts"
    by (rule upper_bound_fp_le)
  from upper_bound_fp_partition [OF assms(1), of cutoff]
  have low: "\<forall>i<?k. \<not> less_d cutoff (ts ! i)"
    and high: "\<forall>i. ?k \<le> i \<and> i < length ts \<longrightarrow> less_d cutoff (ts ! i)"
    by blast+
  have "filter ?P (zip ts cs) = take ?k (zip ts cs)"
  proof (rule filter_prefix)
    show "?k \<le> length (zip ts cs)"
      using k assms(2) by simp
    show "\<forall>i<?k. ?P (zip ts cs ! i)"
      using low k assms(2) by simp
    show "\<forall>i. ?k \<le> i \<and> i < length (zip ts cs) \<longrightarrow> \<not> ?P (zip ts cs ! i)"
      using high assms(2) by simp
  qed
  then have "map snd (filter ?P (zip ts cs)) = map snd (take ?k (zip ts cs))"
    by simp
  also have "\<dots> = take ?k cs"
    using assms(2) by (simp add: take_map [symmetric])
  finally show ?thesis
    using k assms(2) by (simp add: window_charge_fp_take)
qed

lemma not_later_iff_le_d:
  fixes ts :: "'a::linorder double list"
  assumes "NaN \<notin> set ts" and "cutoff \<noteq> NaN"
  shows "filter (\<lambda>(t, q). \<not> less_d cutoff t) (zip ts cs) =
         filter (\<lambda>(t, q). le_d t cutoff) (zip ts cs)"
proof (rule filter_cong [OF refl])
  fix p assume mem: "p \<in> set (zip ts cs)"
  obtain t q where p: "p = (t, q)"
    by (cases p)
  from mem have "t \<in> set ts"
    unfolding p by (rule set_zip_leftD)
  with assms(1) have "t \<noteq> NaN" by auto
  with assms(2) show "(case p of (t, q) \<Rightarrow> \<not> less_d cutoff t) =
      (case p of (t, q) \<Rightarrow> le_d t cutoff)"
    unfolding p by (simp add: not_less_d_iff_le_d)
qed

lemma sorted_wrt_le_d_first:
  fixes ts :: "'a::linorder double list"
  assumes "sorted_wrt le_d ts" and "NaN \<notin> set ts" and "t \<in> set ts"
  shows "le_d (ts ! 0) t"
proof -
  from assms(3) obtain i where i: "i < length ts" "ts ! i = t"
    by (auto simp: in_set_conv_nth)
  show ?thesis
  proof (cases i)
    case 0
    with i assms(2,3) show ?thesis by (auto intro: le_d_refl)
  next
    case (Suc k)
    with i assms(1) show ?thesis
      using sorted_wrt_nth_less [of le_d ts 0 i] by simp
  qed
qed

subsection \<open>Exact arithmetic as one arithmetic of the double model\<close>

lemma exact_simps:
  "fadd exact = lift2 (+)" "fsub exact = lift2 (-)" "fmul exact = lift2 (*)"
  "fdiv exact = exact_div" "fsqrt exact = exact_sqrt"
  "c100 exact = Num 100" "c500 exact = Num 500" "c02 exact = Num 0.2" "c05 exact = Num 0.5"
  by (simp_all add: exact_def)

lemma exact_add_monotone: "add_monotone exact"
  by (simp add: add_monotone_def exact_simps)

subsection \<open>The percentile search in the double model\<close>

lemma upper_bound_fp_first_exceeding:
  fixes cs :: "'a::{linorder,zero} double list"
  assumes "sorted_wrt le_d (partial_sum_fp F cs)"
  shows "upper_bound_fp (partial_sum_fp F cs) threshold = first_exceeding_fp F cs threshold"
proof -
  let ?r = "upper_bound_fp (partial_sum_fp F cs) threshold"
  have r: "?r \<le> length cs"
    using upper_bound_fp_le [of "partial_sum_fp F cs" threshold]
    by (simp add: length_partial_sum_fp)
  from upper_bound_fp_partition [OF assms, of threshold]
  have low: "\<forall>i<?r. \<not> less_d threshold (partial_sum_fp F cs ! i)"
    and high: "\<forall>i. ?r \<le> i \<and> i < length cs \<longrightarrow> less_d threshold (partial_sum_fp F cs ! i)"
    by (simp_all add: length_partial_sum_fp)
  have "\<forall>i<?r. \<not> less_d threshold (running_charge_fp F cs i)"
    using low r by (auto simp: partial_sum_fp_nth [symmetric])
  moreover have "?r < length cs \<longrightarrow> \<not> \<not> less_d threshold (running_charge_fp F cs ?r)"
    using high by (auto simp: partial_sum_fp_nth [symmetric])
  ultimately show ?thesis
    unfolding first_exceeding_fp_def using r by (intro takeWhile_upt_first [symmetric]) simp_all
qed

section \<open>Input validation of the kernel\<close>

text \<open>
  C4. With an empty \<open>times\<close> the kernel returns the nine zeros whatever \<open>charges\<close> is,
  of equal length or not: the emptiness test comes first and no length is compared.
\<close>

theorem empty_times_zero_vector:
  "compute_summary_stats std_sort [] charges = Inr [0, 0, 0, 0, 0, 0, 0, 0, 0]"
  by (simp add: compute_summary_stats_def empty_stats_def)

text \<open>
  C5. With a non-empty \<open>times\<close> and a \<open>charges\<close> of another length the kernel returns
  no statistics: it raises the invalid-argument error whose message ends with the two
  lengths in decimal, the length of \<open>times\<close> first, and each length can be read back from
  its numeral.
\<close>

theorem length_mismatch_invalid_argument:
  assumes "times_in \<noteq> []" and "length times_in \<noteq> length charges"
  shows "compute_summary_stats std_sort times_in charges =
           Inl (Invalid_argument (''times and charges must have the same length, got '' @
                                  to_string (length times_in) @ '' and '' @
                                  to_string (length charges))) \<and>
         from_string (to_string (length times_in)) = length times_in \<and>
         from_string (to_string (length charges)) = length charges"
  using assms by (simp add: compute_summary_stats_def length_error_def from_string_to_string)

theorem length_mismatch_invalid_argument_witness:
  "[1 :: real] \<noteq> [] \<and> length [1 :: real] \<noteq> length [1, 2 :: real] \<and>
   compute_summary_stats insertion_sort [1] [1, 2] =
     Inl (Invalid_argument ''times and charges must have the same length, got 1 and 2'')"
proof -
  have ne: "[1 :: real] \<noteq> []" and len: "length [1 :: real] \<noteq> length [1, 2 :: real]"
    by simp_all
  have one: "to_string (length [1 :: real]) = ''1''"
    and two: "to_string (length [1, 2 :: real]) = ''2''"
    by code_simp+
  from length_mismatch_invalid_argument [OF ne len, of insertion_sort] ne len
  show ?thesis
    unfolding one two by simp
qed

section \<open>Range of the time outputs\<close>

text \<open>
  C10. On a non-empty input with as many charges as times, the first and last pulse
  times and the two percentile times are all times of the input, and both percentile
  times lie between the first and the last pulse time. The clamped positions at which
  the percentile times are read are inside the sorted times. The first pulse time is
  the smallest and the last pulse time the largest time of the input.
\<close>

theorem time_outputs_from_input:
  assumes "sort_contract std_sort" and "times_in \<noteq> []"
    and "length times_in = length charges"
  shows "\<exists>ts cs r. sorted_pulses std_sort times_in charges = (ts, cs) \<and>
           compute_summary_stats std_sort times_in charges = Inr r \<and>
           r ! 3 \<in> set times_in \<and> r ! 4 \<in> set times_in \<and>
           r ! 5 \<in> set times_in \<and> r ! 6 \<in> set times_in \<and>
           r ! 3 \<le> r ! 5 \<and> r ! 5 \<le> r ! 4 \<and> r ! 3 \<le> r ! 6 \<and> r ! 6 \<le> r ! 4 \<and>
           r ! 3 = Min (set times_in) \<and> r ! 4 = Max (set times_in) \<and>
           percentile_index ts (partial_sum cs) (0.2 * r ! 0) < length ts \<and>
           percentile_index ts (partial_sum cs) (0.5 * r ! 0) < length ts \<and>
           r ! 5 = ts ! percentile_index ts (partial_sum cs) (0.2 * r ! 0) \<and>
           r ! 6 = ts ! percentile_index ts (partial_sum cs) (0.5 * r ! 0)"
proof -
  let ?ts = "fst (sorted_pulses std_sort times_in charges)"
  let ?cs = "snd (sorted_pulses std_sort times_in charges)"
  let ?r = "stats_of_sorted ?ts ?cs"
  let ?i20 = "percentile_index ?ts (partial_sum ?cs) (0.2 * ?r ! 0)"
  let ?i50 = "percentile_index ?ts (partial_sum ?cs) (0.5 * ?r ! 0)"
  have res: "compute_summary_stats std_sort times_in charges = Inr ?r"
    using assms(2,3) by (rule compute_summary_stats_valid)
  have ne: "?ts \<noteq> []"
    using assms(1,2) by (rule sorted_pulses_nonempty)
  have srt: "sorted ?ts"
    using assms(1) by (rule sorted_pulses_sorted)
  have set_eq: "set ?ts = set times_in"
    using assms(1,3) by (rule sorted_pulses_set_times)
  have i20: "?i20 < length ?ts" and i50: "?i50 < length ?ts"
    using ne by (simp_all add: percentile_index_in_range)
  have r5: "?r ! 5 = ?ts ! ?i20" and r6: "?r ! 6 = ?ts ! ?i50"
    by (simp_all add: stats_nth percentile_time_def)
  have r3: "?r ! 3 = ?ts ! 0" and r4: "?r ! 4 = last ?ts"
    by (simp_all add: stats_nth)
  have "?r ! 3 \<in> set times_in"
    using ne unfolding r3 set_eq [symmetric] by simp
  moreover have "?r ! 4 \<in> set times_in"
    using ne unfolding r4 set_eq [symmetric] by simp
  moreover have "?r ! 5 \<in> set times_in"
    using i20 unfolding r5 set_eq [symmetric] by simp
  moreover have "?r ! 6 \<in> set times_in"
    using i50 unfolding r6 set_eq [symmetric] by simp
  moreover have "?r ! 3 \<le> ?r ! 5" and "?r ! 3 \<le> ?r ! 6"
    unfolding r3 r5 r6 using srt i20 i50 by (simp_all add: sorted_first_le)
  moreover have "?r ! 5 \<le> ?r ! 4" and "?r ! 6 \<le> ?r ! 4"
    unfolding r4 r5 r6 using srt i20 i50 by (simp_all add: sorted_le_last)
  moreover have "?r ! 3 = Min (set times_in)"
    unfolding r3 set_eq [symmetric] using srt ne by (rule sorted_first_Min)
  moreover have "?r ! 4 = Max (set times_in)"
    unfolding r4 set_eq [symmetric] using srt ne by (rule sorted_last_Max)
  moreover have "sorted_pulses std_sort times_in charges = (?ts, ?cs)"
    by simp
  ultimately show ?thesis
    using res i20 i50 r5 r6 by blast
qed

theorem time_outputs_from_input_witness:
  "sort_contract insertion_sort \<and> [30, 10, 20 :: real] \<noteq> [] \<and>
   length [30, 10, 20 :: real] = length [1, 2, 3 :: real] \<and>
   (\<exists>ts cs r. sorted_pulses insertion_sort [30, 10, 20] [1, 2, 3] = (ts, cs) \<and>
           compute_summary_stats insertion_sort [30, 10, 20] [1, 2, 3] = Inr r \<and>
           r ! 3 \<in> set [30, 10, 20] \<and> r ! 4 \<in> set [30, 10, 20] \<and>
           r ! 5 \<in> set [30, 10, 20] \<and> r ! 6 \<in> set [30, 10, 20] \<and>
           r ! 3 \<le> r ! 5 \<and> r ! 5 \<le> r ! 4 \<and> r ! 3 \<le> r ! 6 \<and> r ! 6 \<le> r ! 4 \<and>
           r ! 3 = Min (set [30, 10, 20]) \<and> r ! 4 = Max (set [30, 10, 20]) \<and>
           percentile_index ts (partial_sum cs) (0.2 * r ! 0) < length ts \<and>
           percentile_index ts (partial_sum cs) (0.5 * r ! 0) < length ts \<and>
           r ! 5 = ts ! percentile_index ts (partial_sum cs) (0.2 * r ! 0) \<and>
           r ! 6 = ts ! percentile_index ts (partial_sum cs) (0.5 * r ! 0))"
proof -
  have ne: "[30, 10, 20 :: real] \<noteq> []" and len: "length [30, 10, 20 :: real] = length [1, 2, 3 :: real]"
    by simp_all
  from time_outputs_from_input [OF insertion_sort_contract ne len] insertion_sort_contract ne len
  show ?thesis by blast
qed

section \<open>The percentile times\<close>

text \<open>
  C1, as amended. Take a non-empty input with as many charges as times, no NaN among
  the times and no negative charge (nor NaN) among the charges, in an arithmetic whose
  addition is monotone in the sense of \<open>add_monotone\<close>. The 20 percent time is the time,
  in the time-sorted sequence, at the first position whose running cumulative charge is
  strictly greater than \<open>0.2 * total_charge\<close>, the position clamped to the last one
  when there is none; the 50 percent time is the same with 0.5. The cumulative charges,
  the total and the two thresholds are the doubles the kernel computes, and the halving
  search over the cumulative charges returns exactly that first position.
\<close>

theorem percentile_times_first_exceeding:
  fixes times_in :: "'a::{linorder,zero} double list"
  assumes "std_sort_contract std_sort" and "times_in \<noteq> []"
    and "length times_in = length charges" and "NaN \<notin> set times_in"
    and "\<forall>q\<in>set charges. le_d (Num 0) q" and "add_monotone F"
  shows "\<exists>ts cs r. sorted_pulses_fp std_sort times_in charges = (ts, cs) \<and>
           sorted_wrt le_d ts \<and> mset (zip ts cs) = mset (zip times_in charges) \<and>
           compute_summary_stats_fp F std_sort times_in charges = Inr r \<and>
           r ! 0 = fsum F cs \<and>
           partial_sum_fp F cs = map (running_charge_fp F cs) [0..<length cs] \<and>
           upper_bound_fp (partial_sum_fp F cs) (fmul F (c02 F) (r ! 0)) =
             first_exceeding_fp F cs (fmul F (c02 F) (fsum F cs)) \<and>
           upper_bound_fp (partial_sum_fp F cs) (fmul F (c05 F) (r ! 0)) =
             first_exceeding_fp F cs (fmul F (c05 F) (fsum F cs)) \<and>
           r ! 5 = spec_percentile_time_fp F ts cs (c02 F) \<and>
           r ! 6 = spec_percentile_time_fp F ts cs (c05 F)"
proof -
  let ?ts = "fst (sorted_pulses_fp std_sort times_in charges)"
  let ?cs = "snd (sorted_pulses_fp std_sort times_in charges)"
  let ?r = "stats_of_sorted_fp F ?ts ?cs"
  from sorted_pulses_fp_spec [OF assms(1,4,3)]
  have srt: "sorted_wrt le_d ?ts"
    and perm: "mset (zip ?ts ?cs) = mset (zip times_in charges)"
    by simp_all
  have sp: "sorted_pulses_fp std_sort times_in charges = (?ts, ?cs)"
    by simp
  have res: "compute_summary_stats_fp F std_sort times_in charges = Inr ?r"
    using assms(2,3) by (rule compute_summary_stats_fp_valid)
  have nonneg: "\<forall>c\<in>set ?cs. le_d (Num 0) c"
    using assms(5) sorted_pulses_fp_set_charges [OF assms(1,4,3)] by simp
  have mono: "\<forall>a q. 0 \<le> a \<and> 0 \<le> q \<longrightarrow> (\<exists>s. fadd F (Num a) (Num q) = Num s \<and> a \<le> s)"
    using assms(6) by (simp only: add_monotone_def)
  have cum: "sorted_wrt le_d (partial_sum_fp F ?cs)"
    using nonneg mono by (rule sorted_partial_sum_fp)
  have r0: "?r ! 0 = fsum F ?cs"
    by (simp only: fp_total_charge accumulate_fp_fsum)
  have running: "partial_sum_fp F ?cs = map (running_charge_fp F ?cs) [0..<length ?cs]"
    by (rule nth_equalityI) (simp_all add: length_partial_sum_fp partial_sum_fp_nth)
  have i20: "upper_bound_fp (partial_sum_fp F ?cs) (fmul F (c02 F) (?r ! 0)) =
      first_exceeding_fp F ?cs (fmul F (c02 F) (fsum F ?cs))"
    unfolding r0 using cum by (rule upper_bound_fp_first_exceeding)
  have i50: "upper_bound_fp (partial_sum_fp F ?cs) (fmul F (c05 F) (?r ! 0)) =
      first_exceeding_fp F ?cs (fmul F (c05 F) (fsum F ?cs))"
    unfolding r0 using cum by (rule upper_bound_fp_first_exceeding)
  have r5: "?r ! 5 = spec_percentile_time_fp F ?ts ?cs (c02 F)"
    using i20
    by (simp only: fp_charge_20_percent_time percentile_time_fp_def percentile_index_fp_def
        spec_percentile_time_fp_def Let_def fp_total_charge)
  have r6: "?r ! 6 = spec_percentile_time_fp F ?ts ?cs (c05 F)"
    using i50
    by (simp only: fp_charge_50_percent_time percentile_time_fp_def percentile_index_fp_def
        spec_percentile_time_fp_def Let_def fp_total_charge)
  from sp srt perm res r0 running i20 i50 r5 r6 show ?thesis
    by blast
qed

text \<open>
  Three pulses given out of time order, in exact arithmetic: total 6, cumulative charges
  2, 5, 6, thresholds 1.2 and 3.
\<close>

theorem percentile_times_first_exceeding_witness:
  "std_sort_contract insertion_sort \<and> add_monotone exact \<and>
   [Num 30, Num 10, Num 20 :: real double] \<noteq> [] \<and>
   length [Num 30, Num 10, Num 20 :: real double] = length [Num 1, Num 2, Num 3 :: real double] \<and>
   NaN \<notin> set [Num 30, Num 10, Num 20 :: real double] \<and>
   list_all (le_d (Num 0)) [Num 1, Num 2, Num 3 :: real double] \<and>
   (\<exists>r. compute_summary_stats_fp exact insertion_sort
          [Num 30, Num 10, Num 20] [Num 1, Num 2, Num 3] = Inr r \<and>
        r ! 0 = Num 6 \<and> r ! 5 = Num 10 \<and> r ! 6 = Num 20)"
proof -
  let ?times = "[Num 30, Num 10, Num 20 :: real double]"
  let ?charges = "[Num 1, Num 2, Num 3 :: real double]"
  have ne: "?times \<noteq> []" and len: "length ?times = length ?charges"
    and nan: "NaN \<notin> set ?times" and nonneg: "\<forall>q\<in>set ?charges. le_d (Num 0) q"
    by simp_all
  have sp: "sorted_pulses_fp insertion_sort ?times ?charges =
      ([Num 10, Num 20, Num 30], [Num 2, Num 3, Num 1])"
    by code_simp
  have p20: "spec_percentile_time_fp exact [Num 10, Num 20, Num 30] [Num 2, Num 3, Num 1]
      (c02 exact) = Num 10"
    and p50: "spec_percentile_time_fp exact [Num 10, Num 20, Num 30] [Num 2, Num 3, Num 1]
      (c05 exact) = Num 20"
    by (simp_all add: spec_percentile_time_fp_def first_exceeding_fp_def fsum_def exact_simps)
  from percentile_times_first_exceeding
    [OF insertion_sort_std_contract ne len nan nonneg exact_add_monotone]
  obtain ts cs r where "sorted_pulses_fp insertion_sort ?times ?charges = (ts, cs)"
    and res: "compute_summary_stats_fp exact insertion_sort ?times ?charges = Inr r"
    and total: "r ! 0 = fsum exact cs"
    and r5: "r ! 5 = spec_percentile_time_fp exact ts cs (c02 exact)"
    and r6: "r ! 6 = spec_percentile_time_fp exact ts cs (c05 exact)"
    by blast
  with sp have ts: "ts = [Num 10, Num 20, Num 30]" and cs: "cs = [Num 2, Num 3, Num 1]"
    by simp_all
  from total have "r ! 0 = Num 6"
    unfolding cs by (simp add: fsum_def exact_simps)
  moreover from r5 p20 have "r ! 5 = Num 10"
    unfolding ts cs by simp
  moreover from r6 p50 have "r ! 6 = Num 20"
    unfolding ts cs by simp
  ultimately show ?thesis
    using insertion_sort_std_contract exact_add_monotone ne len nan res
    by simp
qed

text \<open>
  Without the restriction to non-negative charges the description fails. For the
  already sorted times 0, 1, 2 with charges 5, -5, 1 the cumulative charges are
  5, 0, 1 and the threshold is 0.2 times 1: the first position above it is 0, with
  time 0, but the search probes the middle position, finds 0 there, moves right and
  ends at position 2, so the kernel reports time 2. All sums here are sums of small
  integers, which doubles add without rounding, and every double near 0.2 lies between
  0 and 1 as 0.2 does, so the arithmetic of the machine takes the same path.
\<close>

theorem percentile_time_negative_charge_counterexample:
  "compute_summary_stats_fp exact insertion_sort
     [Num 0, Num 1, Num 2] [Num 5, Num (- 5), Num 1] =
     Inr (stats_of_sorted_fp exact [Num 0, Num 1, Num 2] [Num 5, Num (- 5), Num 1]) \<and>
   sorted_pulses_fp insertion_sort [Num 0, Num 1, Num 2] [Num 5, Num (- 5), Num 1] =
     ([Num 0, Num 1, Num 2], [Num 5, Num (- 5), Num 1 :: real double]) \<and>
   partial_sum_fp exact [Num 5, Num (- 5), Num 1] = [Num 5, Num 0, Num 1] \<and>
   fmul exact (c02 exact) (fsum exact [Num 5, Num (- 5), Num 1]) = Num 0.2 \<and>
   stats_of_sorted_fp exact [Num 0, Num 1, Num 2] [Num 5, Num (- 5), Num 1] ! 5 = Num 2 \<and>
   spec_percentile_time_fp exact [Num 0, Num 1, Num 2] [Num 5, Num (- 5), Num 1] (c02 exact) =
     Num 0 \<and>
   stats_of_sorted_fp exact [Num 0, Num 1, Num 2] [Num 5, Num (- 5), Num 1] ! 5 \<noteq>
     spec_percentile_time_fp exact [Num 0, Num 1, Num 2] [Num 5, Num (- 5), Num 1] (c02 exact)"
proof -
  let ?times = "[Num 0, Num 1, Num 2 :: real double]"
  let ?charges = "[Num 5, Num (- 5), Num 1 :: real double]"
  have sp: "sorted_pulses_fp insertion_sort ?times ?charges = (?times, ?charges)"
    by (rule sorted_pulses_fp_already_sorted) simp
  have res: "compute_summary_stats_fp exact insertion_sort ?times ?charges =
      Inr (stats_of_sorted_fp exact ?times ?charges)"
    using compute_summary_stats_fp_valid [of ?times ?charges exact insertion_sort]
    by (simp add: sp)
  have cum: "partial_sum_fp exact ?charges = [Num 5, Num 0, Num 1]"
    by (simp add: exact_simps)
  have thr: "fmul exact (c02 exact) (fsum exact ?charges) = Num 0.2"
    by (simp add: fsum_def exact_simps)
  have search: "upper_bound_fp [Num 5, Num 0, Num 1 :: real double] (Num (1 / 5)) = 2"
    by code_simp
  have code: "stats_of_sorted_fp exact ?times ?charges ! 5 = Num 2"
    unfolding fp_charge_20_percent_time accumulate_fp_fsum thr cum
    by (simp add: percentile_time_fp_def percentile_index_fp_def search)
  have spec: "spec_percentile_time_fp exact ?times ?charges (c02 exact) = Num 0"
    unfolding spec_percentile_time_fp_def thr
    by (simp add: first_exceeding_fp_def exact_simps)
  have differ: "stats_of_sorted_fp exact ?times ?charges ! 5 \<noteq>
      spec_percentile_time_fp exact ?times ?charges (c02 exact)"
    unfolding code spec by simp
  from sp res cum thr code spec differ show ?thesis
    by blast
qed

section \<open>The charge in the time windows\<close>

text \<open>
  C2. Take a non-empty input with as many charges as times and no NaN among the times.
  The first pulse time is a time of the input and not later than any of them. The
  cutoff of the 100 ns window is the double that adding \<^verbatim>\<open>100.0\<close> to the first pulse
  time gives (line 63 of the source), and \<open>charge_100ns\<close> is the sum, in time order, of
  the charges of exactly the pulses that are not later than this cutoff; when the cutoff
  is a number these are the pulses with \<open>time \<le> cutoff\<close>, a pulse at the cutoff itself
  included. \<open>charge_500ns\<close> is the same with \<^verbatim>\<open>500.0\<close>. In the instance that follows
  the theorem one pulse sits exactly on each cutoff and is counted.
\<close>

theorem window_charges_closed_interval:
  fixes times_in :: "'a::{linorder,zero} double list"
  assumes "std_sort_contract std_sort" and "times_in \<noteq> []"
    and "length times_in = length charges" and "NaN \<notin> set times_in"
  shows "\<exists>ts cs r. sorted_pulses_fp std_sort times_in charges = (ts, cs) \<and>
           sorted_wrt le_d ts \<and> mset (zip ts cs) = mset (zip times_in charges) \<and>
           compute_summary_stats_fp F std_sort times_in charges = Inr r \<and>
           r ! 3 \<in> set times_in \<and> list_all (le_d (r ! 3)) times_in \<and>
           r ! 1 = fsum F (map snd (filter (\<lambda>(t, q). \<not> less_d (fadd F (r ! 3) (c100 F)) t)
                                           (zip ts cs))) \<and>
           r ! 2 = fsum F (map snd (filter (\<lambda>(t, q). \<not> less_d (fadd F (r ! 3) (c500 F)) t)
                                           (zip ts cs))) \<and>
           (fadd F (r ! 3) (c100 F) \<noteq> NaN \<longrightarrow>
              r ! 1 = charge_up_to_fp F ts cs (fadd F (r ! 3) (c100 F))) \<and>
           (fadd F (r ! 3) (c500 F) \<noteq> NaN \<longrightarrow>
              r ! 2 = charge_up_to_fp F ts cs (fadd F (r ! 3) (c500 F)))"
proof -
  let ?ts = "fst (sorted_pulses_fp std_sort times_in charges)"
  let ?cs = "snd (sorted_pulses_fp std_sort times_in charges)"
  let ?r = "stats_of_sorted_fp F ?ts ?cs"
  from sorted_pulses_fp_spec [OF assms(1,4,3)]
  have srt: "sorted_wrt le_d ?ts" and lt: "length ?ts = length times_in"
    and lc: "length ?cs = length ?ts"
    and perm: "mset (zip ?ts ?cs) = mset (zip times_in charges)"
    by simp_all
  have set_eq: "set ?ts = set times_in"
    using assms(1,4,3) by (rule sorted_pulses_fp_set_times)
  have nan: "NaN \<notin> set ?ts"
    using assms(4) set_eq by simp
  have ne: "?ts \<noteq> []"
    using lt assms(2) by auto
  have sp: "sorted_pulses_fp std_sort times_in charges = (?ts, ?cs)"
    by simp
  have res: "compute_summary_stats_fp F std_sort times_in charges = Inr ?r"
    using assms(2,3) by (rule compute_summary_stats_fp_valid)
  have r3: "?r ! 3 = ?ts ! 0"
    by (rule fp_first_pulse_time)
  have first_in: "?r ! 3 \<in> set times_in"
    unfolding r3 set_eq [symmetric] using ne by simp
  have first_least: "list_all (le_d (?r ! 3)) times_in"
    unfolding r3 list_all_iff set_eq [symmetric]
    using sorted_wrt_le_d_first [OF srt nan] by blast
  have w100: "?r ! 1 = fsum F (map snd (filter (\<lambda>(t, q). \<not> less_d (fadd F (?r ! 3) (c100 F)) t)
                                           (zip ?ts ?cs)))"
    unfolding fp_charge_100ns r3 using srt lc by (rule window_charge_fp_sorted)
  have w500: "?r ! 2 = fsum F (map snd (filter (\<lambda>(t, q). \<not> less_d (fadd F (?r ! 3) (c500 F)) t)
                                           (zip ?ts ?cs)))"
    unfolding fp_charge_500ns r3 using srt lc by (rule window_charge_fp_sorted)
  have c100: "fadd F (?r ! 3) (c100 F) \<noteq> NaN \<longrightarrow>
      ?r ! 1 = charge_up_to_fp F ?ts ?cs (fadd F (?r ! 3) (c100 F))"
  proof
    assume "fadd F (?r ! 3) (c100 F) \<noteq> NaN"
    from not_later_iff_le_d [OF nan this, of ?cs] w100
    show "?r ! 1 = charge_up_to_fp F ?ts ?cs (fadd F (?r ! 3) (c100 F))"
      by (simp only: charge_up_to_fp_def)
  qed
  have c500: "fadd F (?r ! 3) (c500 F) \<noteq> NaN \<longrightarrow>
      ?r ! 2 = charge_up_to_fp F ?ts ?cs (fadd F (?r ! 3) (c500 F))"
  proof
    assume "fadd F (?r ! 3) (c500 F) \<noteq> NaN"
    from not_later_iff_le_d [OF nan this, of ?cs] w500
    show "?r ! 2 = charge_up_to_fp F ?ts ?cs (fadd F (?r ! 3) (c500 F))"
      by (simp only: charge_up_to_fp_def)
  qed
  from sp srt perm res first_in first_least w100 w500 c100 c500 show ?thesis
    by blast
qed

theorem window_charges_closed_interval_witness:
  "std_sort_contract insertion_sort \<and> [Num 700, Num 110, Num 10, Num 510 :: real double] \<noteq> [] \<and>
   length [Num 700, Num 110, Num 10, Num 510 :: real double] =
     length [Num 8, Num 2, Num 1, Num 4 :: real double] \<and>
   NaN \<notin> set [Num 700, Num 110, Num 10, Num 510 :: real double] \<and>
   (\<exists>r. compute_summary_stats_fp exact insertion_sort
          [Num 700, Num 110, Num 10, Num 510] [Num 8, Num 2, Num 1, Num 4] = Inr r \<and>
        r ! 3 = Num 10 \<and> r ! 1 = Num 3 \<and> r ! 2 = Num 7)"
proof -
  let ?times = "[Num 700, Num 110, Num 10, Num 510 :: real double]"
  let ?charges = "[Num 8, Num 2, Num 1, Num 4 :: real double]"
  have ne: "?times \<noteq> []" and len: "length ?times = length ?charges"
    and nan: "NaN \<notin> set ?times"
    by simp_all
  have sp: "sorted_pulses_fp insertion_sort ?times ?charges =
      ([Num 10, Num 110, Num 510, Num 700], [Num 1, Num 2, Num 4, Num 8])"
    by code_simp
  from window_charges_closed_interval [OF insertion_sort_std_contract ne len nan, of exact]
  obtain ts cs r where "sorted_pulses_fp insertion_sort ?times ?charges = (ts, cs)"
    and res: "compute_summary_stats_fp exact insertion_sort ?times ?charges = Inr r"
    and first_in: "r ! 3 \<in> set ?times" and least: "list_all (le_d (r ! 3)) ?times"
    and c100: "fadd exact (r ! 3) (c100 exact) \<noteq> NaN \<longrightarrow>
      r ! 1 = charge_up_to_fp exact ts cs (fadd exact (r ! 3) (c100 exact))"
    and c500: "fadd exact (r ! 3) (c500 exact) \<noteq> NaN \<longrightarrow>
      r ! 2 = charge_up_to_fp exact ts cs (fadd exact (r ! 3) (c500 exact))"
    by blast
  with sp have ts: "ts = [Num 10, Num 110, Num 510, Num 700]"
    and cs: "cs = [Num 1, Num 2, Num 4, Num 8]"
    by simp_all
  from first_in least have r3: "r ! 3 = Num 10"
    by auto
  from c100 have "r ! 1 = Num 3"
    unfolding r3 ts cs by (simp add: exact_simps charge_up_to_fp_def fsum_def)
  moreover from c500 have "r ! 2 = Num 7"
    unfolding r3 ts cs by (simp add: exact_simps charge_up_to_fp_def fsum_def)
  ultimately show ?thesis
    using insertion_sort_std_contract ne len nan res r3 by blast
qed

section \<open>The charge-weighted moments\<close>

text \<open>
  C3. Take a non-empty input with as many charges as times and no NaN among the times.
  The total charge is the sum of the sorted charges. When it is greater than 0, the
  weighted mean time is the sum of \<open>t * q\<close> over the sorted pulses divided by the total
  charge, and the weighted standard deviation is the square root of the sum of
  \<open>q * (t - mean) * (t - mean)\<close> over the sorted pulses divided by the total charge, every
  operation being the one of the arithmetic \<open>F\<close>. When the total charge is 0 or less,
  and also when it is NaN, both outputs are \<^verbatim>\<open>0.0\<close> and nothing is divided: the
  division of \<open>F\<close> may return anything at a zero divisor, and the statement holds for
  every \<open>F\<close>. The instances after the theorem are a positive total, a total of zero,
  where the exact division would have given NaN, and a positive total with a negative
  weighted variance, whose root is NaN.
\<close>

theorem weighted_moments:
  fixes times_in :: "'a::{linorder,zero} double list"
  assumes "std_sort_contract std_sort" and "times_in \<noteq> []"
    and "length times_in = length charges" and "NaN \<notin> set times_in"
  shows "\<exists>ts cs r. sorted_pulses_fp std_sort times_in charges = (ts, cs) \<and>
           sorted_wrt le_d ts \<and> mset (zip ts cs) = mset (zip times_in charges) \<and>
           compute_summary_stats_fp F std_sort times_in charges = Inr r \<and>
           r ! 0 = fsum F cs \<and>
           (less_d (Num 0) (r ! 0) \<longrightarrow>
              r ! 7 = fdiv F (fsum F (map (\<lambda>(t, q). fmul F t q) (zip ts cs))) (r ! 0) \<and>
              r ! 8 = fsqrt F (fdiv F
                        (fsum F (map (\<lambda>(t, q). fmul F (fmul F q (fsub F t (r ! 7)))
                                                         (fsub F t (r ! 7))) (zip ts cs)))
                        (r ! 0))) \<and>
           (le_d (r ! 0) (Num 0) \<longrightarrow> r ! 7 = Num 0 \<and> r ! 8 = Num 0) \<and>
           (\<not> less_d (Num 0) (r ! 0) \<longrightarrow> r ! 7 = Num 0 \<and> r ! 8 = Num 0)"
proof -
  let ?ts = "fst (sorted_pulses_fp std_sort times_in charges)"
  let ?cs = "snd (sorted_pulses_fp std_sort times_in charges)"
  let ?r = "stats_of_sorted_fp F ?ts ?cs"
  from sorted_pulses_fp_spec [OF assms(1,4,3)]
  have srt: "sorted_wrt le_d ?ts" and lc: "length ?cs = length ?ts"
    and perm: "mset (zip ?ts ?cs) = mset (zip times_in charges)"
    by simp_all
  have sp: "sorted_pulses_fp std_sort times_in charges = (?ts, ?cs)"
    by simp
  have res: "compute_summary_stats_fp F std_sort times_in charges = Inr ?r"
    using assms(2,3) by (rule compute_summary_stats_fp_valid)
  have r0: "?r ! 0 = fsum F ?cs"
    by (simp only: fp_total_charge accumulate_fp_fsum)
  have total: "accumulate_fp F ?cs (Num 0) = ?r ! 0"
    by (simp only: fp_total_charge)
  have positive: "less_d (Num 0) (?r ! 0) \<longrightarrow>
      ?r ! 7 = fdiv F (fsum F (map (\<lambda>(t, q). fmul F t q) (zip ?ts ?cs))) (?r ! 0) \<and>
      ?r ! 8 = fsqrt F (fdiv F
                 (fsum F (map (\<lambda>(t, q). fmul F (fmul F q (fsub F t (?r ! 7)))
                                                  (fsub F t (?r ! 7))) (zip ?ts ?cs)))
                 (?r ! 0))"
  proof
    assume pos: "less_d (Num 0) (?r ! 0)"
    then have pos': "less_d (Num 0) (accumulate_fp F ?cs (Num 0))"
      unfolding total .
    have m: "?r ! 7 = fdiv F (weighted_sum_fp F ?ts ?cs) (?r ! 0)"
      using pos' by (simp only: fp_charge_weighted_mean_time total if_True)
    have "?r ! 8 = fsqrt F (fdiv F (weighted_variance_sum_fp F ?ts ?cs
                (fdiv F (weighted_sum_fp F ?ts ?cs) (?r ! 0))) (?r ! 0))"
      using pos' by (simp only: fp_charge_weighted_std_time total if_True)
    then have s: "?r ! 8 = fsqrt F (fdiv F (weighted_variance_sum_fp F ?ts ?cs (?r ! 7)) (?r ! 0))"
      by (simp only: m [symmetric])
    from m s show "?r ! 7 = fdiv F (fsum F (map (\<lambda>(t, q). fmul F t q) (zip ?ts ?cs))) (?r ! 0) \<and>
      ?r ! 8 = fsqrt F (fdiv F
                 (fsum F (map (\<lambda>(t, q). fmul F (fmul F q (fsub F t (?r ! 7)))
                                                  (fsub F t (?r ! 7))) (zip ?ts ?cs)))
                 (?r ! 0))"
      by (simp only: weighted_sum_fp_zip [OF lc] weighted_variance_sum_fp_zip [OF lc])
  qed
  have guard: "\<not> less_d (Num 0) (?r ! 0) \<longrightarrow> ?r ! 7 = Num 0 \<and> ?r ! 8 = Num 0"
  proof
    assume "\<not> less_d (Num 0) (?r ! 0)"
    then have "\<not> less_d (Num 0) (accumulate_fp F ?cs (Num 0))"
      unfolding total .
    then show "?r ! 7 = Num 0 \<and> ?r ! 8 = Num 0"
      by (simp only: fp_charge_weighted_mean_time fp_charge_weighted_std_time if_False)
  qed
  have nonpositive: "le_d (?r ! 0) (Num 0) \<longrightarrow> ?r ! 7 = Num 0 \<and> ?r ! 8 = Num 0"
  proof
    assume "le_d (?r ! 0) (Num 0)"
    then have "\<not> less_d (Num 0) (?r ! 0)"
      by (cases "?r ! 0") simp_all
    with guard show "?r ! 7 = Num 0 \<and> ?r ! 8 = Num 0"
      by blast
  qed
  from sp srt perm res r0 positive nonpositive guard show ?thesis
    by blast
qed

theorem weighted_moments_witness:
  "std_sort_contract insertion_sort \<and>
   NaN \<notin> set [Num 30, Num 10 :: real double] \<and>
   NaN \<notin> set [Num 10, Num 20 :: real double] \<and>
   NaN \<notin> set [Num 0, Num 1, Num 2 :: real double] \<and>
   (\<exists>r. compute_summary_stats_fp exact insertion_sort [Num 30, Num 10] [Num 1, Num 1] = Inr r \<and>
        r ! 0 = Num 2 \<and> r ! 7 = Num 20 \<and> r ! 8 = Num 10) \<and>
   (\<exists>r. compute_summary_stats_fp exact insertion_sort [Num 10, Num 20] [Num 1, Num (- 1)] = Inr r \<and>
        r ! 0 = Num 0 \<and> r ! 7 = Num 0 \<and> r ! 8 = Num 0) \<and>
   fdiv exact (Num (- 10)) (Num 0) = NaN \<and>
   (\<exists>r. compute_summary_stats_fp exact insertion_sort
          [Num 0, Num 1, Num 2] [Num 5, Num (- 5), Num 1] = Inr r \<and>
        r ! 0 = Num 1 \<and> r ! 7 = Num (- 3) \<and> r ! 8 = NaN)"
proof -
  have root: "sqrt 100 = 10"
    by (rule real_sqrt_unique) simp_all
  let ?t1 = "[Num 30, Num 10 :: real double]" and ?c1 = "[Num 1, Num 1 :: real double]"
  have ne1: "?t1 \<noteq> []" and len1: "length ?t1 = length ?c1" and nan1: "NaN \<notin> set ?t1"
    by simp_all
  have sp1: "sorted_pulses_fp insertion_sort ?t1 ?c1 = ([Num 10, Num 30], [Num 1, Num 1])"
    by code_simp
  from weighted_moments [OF insertion_sort_std_contract ne1 len1 nan1, of exact]
  obtain ts cs r where "sorted_pulses_fp insertion_sort ?t1 ?c1 = (ts, cs)"
    and res1: "compute_summary_stats_fp exact insertion_sort ?t1 ?c1 = Inr r"
    and total1: "r ! 0 = fsum exact cs"
    and pos1: "less_d (Num 0) (r ! 0) \<longrightarrow>
      r ! 7 = fdiv exact (fsum exact (map (\<lambda>(t, q). fmul exact t q) (zip ts cs))) (r ! 0) \<and>
      r ! 8 = fsqrt exact (fdiv exact
                 (fsum exact (map (\<lambda>(t, q). fmul exact (fmul exact q (fsub exact t (r ! 7)))
                                                  (fsub exact t (r ! 7))) (zip ts cs)))
                 (r ! 0))"
    by blast
  with sp1 have ts1: "ts = [Num 10, Num 30]" and cs1: "cs = [Num 1, Num 1]"
    by simp_all
  from total1 have r0: "r ! 0 = Num 2"
    unfolding cs1 by (simp add: fsum_def exact_simps)
  from pos1 have r7: "r ! 7 = Num 20"
    unfolding r0 ts1 cs1 by (simp add: fsum_def exact_simps)
  from pos1 have r8: "r ! 8 = Num 10"
    unfolding r0 r7 ts1 cs1 by (simp add: fsum_def exact_simps root)
  let ?t2 = "[Num 10, Num 20 :: real double]" and ?c2 = "[Num 1, Num (- 1) :: real double]"
  have ne2: "?t2 \<noteq> []" and len2: "length ?t2 = length ?c2" and nan2: "NaN \<notin> set ?t2"
    by simp_all
  have sp2: "sorted_pulses_fp insertion_sort ?t2 ?c2 = (?t2, ?c2)"
    by (rule sorted_pulses_fp_already_sorted) simp
  from weighted_moments [OF insertion_sort_std_contract ne2 len2 nan2, of exact]
  obtain ts' cs' r' where "sorted_pulses_fp insertion_sort ?t2 ?c2 = (ts', cs')"
    and res2: "compute_summary_stats_fp exact insertion_sort ?t2 ?c2 = Inr r'"
    and total2: "r' ! 0 = fsum exact cs'"
    and zero2: "le_d (r' ! 0) (Num 0) \<longrightarrow> r' ! 7 = Num 0 \<and> r' ! 8 = Num 0"
    by blast
  with sp2 have cs2: "cs' = ?c2"
    by simp
  from total2 have r0': "r' ! 0 = Num 0"
    unfolding cs2 by (simp add: fsum_def exact_simps)
  with zero2 have r78': "r' ! 7 = Num 0 \<and> r' ! 8 = Num 0"
    by simp
  have division: "fdiv exact (Num (- 10)) (Num 0) = NaN"
    by (simp add: exact_simps)
  let ?t3 = "[Num 0, Num 1, Num 2 :: real double]"
  let ?c3 = "[Num 5, Num (- 5), Num 1 :: real double]"
  have ne3: "?t3 \<noteq> []" and len3: "length ?t3 = length ?c3" and nan3: "NaN \<notin> set ?t3"
    by simp_all
  have sp3: "sorted_pulses_fp insertion_sort ?t3 ?c3 = (?t3, ?c3)"
    by (rule sorted_pulses_fp_already_sorted) simp
  from weighted_moments [OF insertion_sort_std_contract ne3 len3 nan3, of exact]
  obtain ts'' cs'' r'' where "sorted_pulses_fp insertion_sort ?t3 ?c3 = (ts'', cs'')"
    and res3: "compute_summary_stats_fp exact insertion_sort ?t3 ?c3 = Inr r''"
    and total3: "r'' ! 0 = fsum exact cs''"
    and pos3: "less_d (Num 0) (r'' ! 0) \<longrightarrow>
      r'' ! 7 = fdiv exact (fsum exact (map (\<lambda>(t, q). fmul exact t q) (zip ts'' cs''))) (r'' ! 0) \<and>
      r'' ! 8 = fsqrt exact (fdiv exact
                 (fsum exact (map (\<lambda>(t, q). fmul exact (fmul exact q (fsub exact t (r'' ! 7)))
                                                  (fsub exact t (r'' ! 7))) (zip ts'' cs'')))
                 (r'' ! 0))"
    by blast
  with sp3 have ts3: "ts'' = ?t3" and cs3: "cs'' = ?c3"
    by simp_all
  from total3 have r0'': "r'' ! 0 = Num 1"
    unfolding cs3 by (simp add: fsum_def exact_simps)
  from pos3 have r7'': "r'' ! 7 = Num (- 3)"
    unfolding r0'' ts3 cs3 by (simp add: fsum_def exact_simps)
  from pos3 have r8'': "r'' ! 8 = NaN"
    unfolding r0'' r7'' ts3 cs3 by (simp add: fsum_def exact_simps)
  from insertion_sort_std_contract nan1 nan2 nan3 res1 r0 r7 r8 res2 r0' r78' division
    res3 r0'' r7'' r8''
  show ?thesis by blast
qed

section \<open>Order of the two percentile times\<close>

text \<open>
  C9. On an input with as many charges as times, no negative charge and a positive
  total charge, the kernel returns a vector whose 20 percent time is not later than its
  50 percent time.
\<close>

theorem percentile_monotonicity:
  assumes "sort_contract std_sort" and "length times_in = length charges"
    and "\<forall>q\<in>set charges. 0 \<le> q" and "0 < sum_list charges"
  shows "\<exists>r. compute_summary_stats std_sort times_in charges = Inr r \<and>
           r ! 0 = sum_list charges \<and> r ! 5 \<le> r ! 6"
proof -
  from assms(4) have "charges \<noteq> []" by auto
  with assms(2) have ne: "times_in \<noteq> []" by auto
  let ?r = "stats_of_sorted (fst (sorted_pulses std_sort times_in charges))
                            (snd (sorted_pulses std_sort times_in charges))"
  have "compute_summary_stats std_sort times_in charges = Inr ?r"
    using ne assms(2) by (rule compute_summary_stats_valid)
  moreover have "?r ! 0 = sum_list charges"
    using sorted_pulses_total_charge [OF assms(1,2)] by (simp add: stats_total_charge)
  moreover have "?r ! 5 \<le> ?r ! 6"
    using assms(1) ne assms(2,3) by (rule percentile_times_ordered)
  ultimately show ?thesis by blast
qed

theorem percentile_monotonicity_witness:
  "sort_contract insertion_sort \<and> length [30, 10, 20 :: real] = length [1, 2, 3 :: real] \<and>
   list_all (\<lambda>q. 0 \<le> q) [1, 2, 3 :: real] \<and> 0 < sum_list [1, 2, 3 :: real] \<and>
   (\<exists>r. compute_summary_stats insertion_sort [30, 10, 20] [1, 2, 3] = Inr r \<and>
        r ! 0 = sum_list [1, 2, 3] \<and> r ! 5 \<le> r ! 6)"
proof -
  have len: "length [30, 10, 20 :: real] = length [1, 2, 3 :: real]"
    and nonneg: "\<forall>q\<in>set [1, 2, 3 :: real]. 0 \<le> q"
    and pos: "0 < sum_list [1, 2, 3 :: real]"
    by simp_all
  from percentile_monotonicity [OF insertion_sort_contract len nonneg pos]
    insertion_sort_contract
  show ?thesis by simp
qed

section \<open>Invariance under reordering of the input\<close>

text \<open>
  C8. Take times and charges of the same length with pairwise distinct times, and a
  permutation \<open>p\<close> of the positions applied to both lists. The kernel's result on the
  permuted lists is the result on the pulses listed in time order
  (\<open>sort_key fst\<close> of the time-charge pairs).
\<close>

theorem sort_invariance:
  assumes "sort_contract std_sort" and "length times_in = length charges"
    and "distinct times_in" and "mset p = mset [0..<length times_in]"
  shows "compute_summary_stats std_sort (map (\<lambda>i. times_in ! i) p) (map (\<lambda>i. charges ! i) p) =
         compute_summary_stats std_sort
           (map fst (sort_key fst (zip times_in charges)))
           (map snd (sort_key fst (zip times_in charges)))"
proof -
  let ?ps = "sort_key fst (zip times_in charges)"
  have d: "distinct (map (\<lambda>i. times_in ! i) p)"
  proof -
    have "mset (map (\<lambda>i. times_in ! i) p) = mset (map (\<lambda>i. times_in ! i) [0..<length times_in])"
      using arg_cong [OF assms(4), of "image_mset (\<lambda>i. times_in ! i)"] by (simp only: mset_map)
    then have "mset (map (\<lambda>i. times_in ! i) p) = mset times_in"
      by (simp only: map_nth)
    from mset_eq_imp_distinct_iff [OF this] assms(3) show ?thesis
      by blast
  qed
  have "mset (zip (map (\<lambda>i. times_in ! i) p) (map (\<lambda>i. charges ! i) p)) =
        mset (zip (map fst ?ps) (map snd ?ps))"
    using mset_gather [OF assms(4,2)] by (simp add: zip_map_fst_snd)
  with assms(1) show ?thesis
    using d by (intro compute_summary_stats_rearranged) simp_all
qed


theorem sort_invariance_witness:
  "sort_contract insertion_sort \<and> length [30, 10, 20 :: real] = length [1, 2, 3 :: real] \<and>
   distinct [30, 10, 20 :: real] \<and> mset [1, 0, 2] = mset [0..<length [30, 10, 20 :: real]] \<and>
   sort_key fst (zip [30, 10, 20 :: real] [1, 2, 3 :: real]) = [(10, 2), (20, 3), (30, 1)] \<and>
   compute_summary_stats insertion_sort [10, 30, 20] [2, 1, 3] =
     compute_summary_stats insertion_sort [10, 20, 30] [2, 3, 1]"
proof -
  have len: "length [30, 10, 20 :: real] = length [1, 2, 3 :: real]"
    and d: "distinct [30, 10, 20 :: real]"
    by simp_all
  have p: "mset [1, 0, 2] = mset [0..<length [30, 10, 20 :: real]]"
    by (simp add: upt_rec)
  have s: "sort_key fst (zip [30, 10, 20 :: real] [1, 2, 3 :: real]) = [(10, 2), (20, 3), (30, 1)]"
    by simp
  from sort_invariance [OF insertion_sort_contract len d p] insertion_sort_contract len d p s
  show ?thesis by simp
qed

section \<open>The batch driver on input lists of different length\<close>

text \<open>
  C6. The batch driver compares the two outer lengths before its loop and raises the
  invalid-argument error without calling the kernel; \<open>batch_outer_length_mismatch\<close> above
  is that part of the claim. The message, however, is a fixed text: for outer lengths
  1 and 0 and for outer lengths 3 and 1 the error is the same value, so it carries
  neither of the lengths, unlike the message of the kernel's own length test. In the
  second instance the first pair has one time and two charges, which the kernel would
  reject with its own message; the batch driver's error is returned all the same.
\<close>

theorem batch_error_without_sizes:
  "compute_summary_stats_batch std_sort [[1]] [] =
     Inl (Invalid_argument ''times_list and charges_list must have the same length'') \<and>
   compute_summary_stats_batch std_sort [[1], [2], [3]] [[1, 2]] =
     Inl (Invalid_argument ''times_list and charges_list must have the same length'')"
  by (simp add: compute_summary_stats_batch_def batch_error_def)

section \<open>The batch driver on input lists of equal length\<close>

text \<open>
  C7. For two input lists of the same length \<open>N\<close>: when the kernel accepts every pair,
  the batch driver returns \<open>N\<close> vectors of nine numbers, the one at position \<open>i\<close> being
  the kernel's result on the pair at position \<open>i\<close>; when the kernel rejects some pair,
  the batch driver returns no vectors at all but the kernel's error, the one raised at
  the first rejected pair.
\<close>

theorem batch_consistency:
  assumes "length times_list = length charges_list"
  shows "((\<forall>i<length times_list.
             \<exists>r. compute_summary_stats std_sort (times_list ! i) (charges_list ! i) = Inr r) \<longrightarrow>
          (\<exists>rs. compute_summary_stats_batch std_sort times_list charges_list = Inr rs \<and>
                length rs = length times_list \<and>
                (\<forall>i<length times_list.
                   length (rs ! i) = 9 \<and>
                   compute_summary_stats std_sort (times_list ! i) (charges_list ! i) =
                     Inr (rs ! i)))) \<and>
         ((\<exists>i<length times_list.
             \<exists>e. compute_summary_stats std_sort (times_list ! i) (charges_list ! i) = Inl e) \<longrightarrow>
          (\<exists>k<length times_list.
             \<exists>e. compute_summary_stats std_sort (times_list ! k) (charges_list ! k) = Inl e \<and>
                 (\<forall>j<k. \<exists>r. compute_summary_stats std_sort (times_list ! j) (charges_list ! j)
                            = Inr r) \<and>
                 compute_summary_stats_batch std_sort times_list charges_list = Inl e))"
proof (intro conjI impI)
  let ?kernel = "\<lambda>i. compute_summary_stats std_sort (times_list ! i) (charges_list ! i)"
  assume ok: "\<forall>i<length times_list. \<exists>r. ?kernel i = Inr r"
  let ?f = "\<lambda>i. projr (?kernel i)"
  have each: "?kernel i = Inr (?f i)" if "i < length times_list" for i
    using ok that by force
  then have "batch_loop std_sort times_list charges_list 0 [] =
             Inr ([] @ map ?f [0..<length times_list])"
    by (intro batch_loop_success) simp_all
  then have run: "compute_summary_stats_batch std_sort times_list charges_list =
                  Inr (map ?f [0..<length times_list])"
    using assms by (simp add: compute_summary_stats_batch_def)
  have "length (map ?f [0..<length times_list] ! i) = 9 \<and>
        ?kernel i = Inr (map ?f [0..<length times_list] ! i)"
    if "i < length times_list" for i
    using each [OF that] that compute_summary_stats_length [of std_sort _ _ "?f i"] by simp
  with run show "\<exists>rs. compute_summary_stats_batch std_sort times_list charges_list = Inr rs \<and>
      length rs = length times_list \<and>
      (\<forall>i<length times_list. length (rs ! i) = 9 \<and> ?kernel i = Inr (rs ! i))"
    by (intro exI [of _ "map ?f [0..<length times_list]"]) simp
next
  let ?kernel = "\<lambda>i. compute_summary_stats std_sort (times_list ! i) (charges_list ! i)"
  let ?fails = "\<lambda>i. i < length times_list \<and> (\<exists>e. ?kernel i = Inl e)"
  assume "\<exists>i<length times_list. \<exists>e. ?kernel i = Inl e"
  then have "\<exists>i. ?fails i" by blast
  then obtain k where k: "?fails k" and least: "\<forall>j<k. \<not> ?fails j"
    using exists_least_iff [of ?fails] by blast
  from k obtain e where e: "?kernel k = Inl e" and kn: "k < length times_list"
    by blast
  have before: "\<exists>r. ?kernel j = Inr r" if "j < k" for j
  proof (cases "?kernel j")
    case (Inl e')
    with least that kn show ?thesis by force
  next
    case (Inr r)
    then show ?thesis by blast
  qed
  then have "batch_loop std_sort times_list charges_list 0 [] = Inl e"
    using e kn by (intro batch_loop_failure [of _ _ k]) simp_all
  then have "compute_summary_stats_batch std_sort times_list charges_list = Inl e"
    using assms by (simp add: compute_summary_stats_batch_def)
  with e kn before
  show "\<exists>k<length times_list. \<exists>e. ?kernel k = Inl e \<and> (\<forall>j<k. \<exists>r. ?kernel j = Inr r) \<and>
      compute_summary_stats_batch std_sort times_list charges_list = Inl e"
    by blast
qed

theorem batch_consistency_witness:
  "length [[30, 10], [] :: real list] = length [[1, 1], [] :: real list] \<and>
   (\<exists>rs. compute_summary_stats_batch insertion_sort [[30, 10], []] [[1, 1], []] = Inr rs \<and>
         length rs = 2 \<and> length (rs ! 0) = 9 \<and>
         compute_summary_stats insertion_sort [30, 10] [1, 1] = Inr (rs ! 0) \<and>
         rs ! 1 = [0, 0, 0, 0, 0, 0, 0, 0, 0]) \<and>
   length [[1], [2 :: real]] = length [[1], [3, 4 :: real]] \<and>
   compute_summary_stats_batch insertion_sort [[1], [2]] [[1], [3, 4]] =
     Inl (Invalid_argument ''times and charges must have the same length, got 1 and 2'')"
proof -
  let ?tl = "[[30, 10], [] :: real list]" and ?cl = "[[1, 1], [] :: real list]"
  let ?tl' = "[[1], [2 :: real]]" and ?cl' = "[[1], [3, 4 :: real]]"
  have len: "length ?tl = length ?cl" and len': "length ?tl' = length ?cl'"
    by simp_all
  have first: "\<exists>r. compute_summary_stats insertion_sort [30, 10] [1, 1] = Inr r"
    using compute_summary_stats_valid [of "[30, 10]" "[1, 1]" insertion_sort] by simp
  have second: "compute_summary_stats insertion_sort [] [] = Inr [0, 0, 0, 0, 0, 0, 0, 0, 0]"
    by (simp add: compute_summary_stats_def empty_stats_def)
  have "\<forall>i<length ?tl. \<exists>r. compute_summary_stats insertion_sort (?tl ! i) (?cl ! i) = Inr r"
    using first second by (simp add: less_Suc_eq)
  with batch_consistency [OF len, of insertion_sort]
  obtain rs where rs: "compute_summary_stats_batch insertion_sort ?tl ?cl = Inr rs"
    and n: "length rs = length ?tl"
    and each: "\<forall>i<length ?tl. length (rs ! i) = 9 \<and>
        compute_summary_stats insertion_sort (?tl ! i) (?cl ! i) = Inr (rs ! i)"
    by blast
  from each have "length (rs ! 0) = 9"
    and "compute_summary_stats insertion_sort [30, 10] [1, 1] = Inr (rs ! 0)"
    and "compute_summary_stats insertion_sort [] [] = Inr (rs ! 1)"
    by (simp_all add: less_Suc_eq)
  with rs n second have good:
    "\<exists>rs. compute_summary_stats_batch insertion_sort ?tl ?cl = Inr rs \<and>
         length rs = 2 \<and> length (rs ! 0) = 9 \<and>
         compute_summary_stats insertion_sort [30, 10] [1, 1] = Inr (rs ! 0) \<and>
         rs ! 1 = [0, 0, 0, 0, 0, 0, 0, 0, 0]"
    by (intro exI [of _ rs]) simp
  have ok0: "\<exists>r. compute_summary_stats insertion_sort [1] [1] = Inr r"
    using compute_summary_stats_valid [of "[1]" "[1]" insertion_sort] by simp
  have one: "to_string (length [2 :: real]) = ''1''"
    and two: "to_string (length [3, 4 :: real]) = ''2''"
    by code_simp+
  have bad1: "compute_summary_stats insertion_sort [2] [3, 4] =
      Inl (Invalid_argument ''times and charges must have the same length, got 1 and 2'')"
    unfolding compute_summary_stats_def length_error_def one two by simp
  then have "\<exists>i<length ?tl'. \<exists>e. compute_summary_stats insertion_sort (?tl' ! i) (?cl' ! i) = Inl e"
    by (intro exI [of _ 1]) simp
  with batch_consistency [OF len', of insertion_sort]
  obtain k e where k: "k < length ?tl'"
    and e: "compute_summary_stats insertion_sort (?tl' ! k) (?cl' ! k) = Inl e"
    and run: "compute_summary_stats_batch insertion_sort ?tl' ?cl' = Inl e"
    by blast
  from k have "k = 0 \<or> k = 1"
    by (auto simp: less_Suc_eq)
  then have "e = Invalid_argument ''times and charges must have the same length, got 1 and 2''"
  proof
    assume "k = 0"
    with e ok0 show ?thesis by simp
  next
    assume "k = 1"
    with e bad1 show ?thesis by simp
  qed
  with run good len len' show ?thesis
    by simp
qed

end
